theory Spec2Isabelle
  imports Main "HOL-Library.Multiset" "HOL-Library.Sublist" "HOL-Library.Word"
    "HOL-Library.List_Lexorder"
begin

section \<open>The bounded cache (cache.ts)\<close>

text \<open>
  The cache is a JavaScript \<open>Map\<close> together with a capacity. A \<open>Map\<close> iterates in insertion
  order, and the cache relies on that order, so the map is an association list with the
  oldest insertion first. The four primitives below are the \<open>Map\<close> methods the class calls:
  \<open>Map.set\<close> on a key that is already there overwrites the value where the key stands, and
  appends the entry otherwise.

  Keys and values range over the type arguments \<open>K\<close> and \<open>V\<close>. The class uses \<open>undefined\<close> as
  its absence marker (the result type of \<open>get\<close> is \<open>V | undefined\<close>, and the first key of the map
  is tested against it), so \<open>K\<close> and \<open>V\<close> are taken not to contain \<open>undefined\<close>, as in every use
  of the class in the repository (keys are strings, values strings or numbers); \<open>undefined\<close> is
  \<open>None\<close> here. The capacity is a number; integers are taken.
\<close>

type_synonym ('k, 'v) js_map = "('k \<times> 'v) list"

definition Map_get :: "('k, 'v) js_map \<Rightarrow> 'k \<Rightarrow> 'v option" where
  "Map_get m key = map_of m key"

definition Map_has :: "('k, 'v) js_map \<Rightarrow> 'k \<Rightarrow> bool" where
  "Map_has m key = (map_of m key \<noteq> None)"

definition Map_delete :: "('k, 'v) js_map \<Rightarrow> 'k \<Rightarrow> ('k, 'v) js_map" where
  "Map_delete m key = filter (\<lambda>p. fst p \<noteq> key) m"

fun Map_set :: "('k, 'v) js_map \<Rightarrow> 'k \<Rightarrow> 'v \<Rightarrow> ('k, 'v) js_map" where
  "Map_set [] key v = [(key, v)]"
| "Map_set (p # m) key v = (if fst p = key then (key, v) # m else p # Map_set m key v)"

definition Map_size :: "('k, 'v) js_map \<Rightarrow> int" where
  "Map_size m = int (length m)"

text \<open>\<open>map.keys().next().value\<close>: the first key in insertion order, \<open>undefined\<close> on an empty map.\<close>

definition Map_first_key :: "('k, 'v) js_map \<Rightarrow> 'k option" where
  "Map_first_key m = (case m of [] \<Rightarrow> None | p # _ \<Rightarrow> Some (fst p))"

record ('k, 'v) LRUCache =
  lru_map :: "('k, 'v) js_map"
  maxSize :: int

datatype error = Error string

definition LRUCache_new :: "int \<Rightarrow> error + ('k, 'v) LRUCache" where
  "LRUCache_new n =
     (if n < 1 then Inl (Error ''LRU cache maxSize must be at least 1'')
      else Inr \<lparr>lru_map = [], maxSize = n\<rparr>)"

definition LRUCache_get :: "('k, 'v) LRUCache \<Rightarrow> 'k \<Rightarrow> 'v option \<times> ('k, 'v) LRUCache" where
  "LRUCache_get c key =
     (case Map_get (lru_map c) key of
        None \<Rightarrow> (None, c)
      | Some v \<Rightarrow> (Some v, c\<lparr>lru_map := Map_set (Map_delete (lru_map c) key) key v\<rparr>))"

definition LRUCache_set :: "('k, 'v) LRUCache \<Rightarrow> 'k \<Rightarrow> 'v \<Rightarrow> ('k, 'v) LRUCache" where
  "LRUCache_set c key v =
     (let m1 = (if Map_has (lru_map c) key then Map_delete (lru_map c) key else lru_map c);
          m2 = Map_set m1 key v
      in if Map_size m2 > maxSize c
         then (case Map_first_key m2 of
                 None \<Rightarrow> c\<lparr>lru_map := m2\<rparr>
               | Some lruKey \<Rightarrow> c\<lparr>lru_map := Map_delete m2 lruKey\<rparr>)
         else c\<lparr>lru_map := m2\<rparr>)"

definition LRUCache_size :: "('k, 'v) LRUCache \<Rightarrow> int" where
  "LRUCache_size c = Map_size (lru_map c)"

definition LRUCache_clear :: "('k, 'v) LRUCache \<Rightarrow> ('k, 'v) LRUCache" where
  "LRUCache_clear c = c\<lparr>lru_map := []\<rparr>"

text \<open>A caller's sequence of method calls on one cache; the result of \<open>get\<close> is dropped.\<close>

datatype ('k, 'v) cache_op = Get 'k | Set 'k 'v | Clear

fun apply_cache_op :: "('k, 'v) LRUCache \<Rightarrow> ('k, 'v) cache_op \<Rightarrow> ('k, 'v) LRUCache" where
  "apply_cache_op c (Get key) = snd (LRUCache_get c key)"
| "apply_cache_op c (Set key v) = LRUCache_set c key v"
| "apply_cache_op c Clear = LRUCache_clear c"

definition run_cache_ops :: "('k, 'v) LRUCache \<Rightarrow> ('k, 'v) cache_op list \<Rightarrow> ('k, 'v) LRUCache" where
  "run_cache_ops c ops = foldl apply_cache_op c ops"

text \<open>\<open>set\<close> called on each key of a list in turn, with its value.\<close>

definition set_all :: "('k, 'v) LRUCache \<Rightarrow> ('k \<times> 'v) list \<Rightarrow> ('k, 'v) LRUCache" where
  "set_all c kvs = foldl (\<lambda>c' p. LRUCache_set c' (fst p) (snd p)) c kvs"

text \<open>The capacity bound every method keeps.\<close>

definition within_capacity :: "('k, 'v) LRUCache \<Rightarrow> bool" where
  "within_capacity c = (int (length (lru_map c)) \<le> maxSize c)"
section \<open>Strings and the host functions (core.ts)\<close>

text \<open>
  A JavaScript string is a sequence of UTF-16 code units, and \<open>length\<close>, \<open>indexOf\<close>, \<open>slice\<close>,
  \<open>includes\<close>, \<open>startsWith\<close> and \<open>===\<close> work on code units: a string is the list of its code
  units. A literal of the source is written \<open>lit\<close> of its text where it is ASCII, and the code
  units of its other characters are given by number.
\<close>

type_synonym code_unit = "16 word"

type_synonym jsstring = "code_unit list"

definition lit :: "string \<Rightarrow> jsstring" where
  "lit s = map of_char s"

definition dquote :: jsstring where "dquote = [0x22]"
definition newline :: jsstring where "newline = [0x0A]"
definition e_acute :: jsstring where "e_acute = [0xE9]"
definition e_grave :: jsstring where "e_grave = [0xE8]"
definition o_circ :: jsstring where "o_circ = [0xF4]"
definition em_dash :: jsstring where "em_dash = [0x2014]"
definition backtick :: jsstring where "backtick = [0x60]"

text \<open>
  \<open>String.prototype.toLowerCase\<close> and \<open>String.prototype.localeCompare\<close> are functions of the
  host: what they return rests on the engine's Unicode and locale data, which is no part of
  the repository. They are the two fields of a \<open>host\<close>, and every function that calls one of
  them takes the host as its first argument. What a proof uses of them is a hypothesis of its
  theorem.
\<close>

record host =
  toLowerCase :: "jsstring \<Rightarrow> jsstring"
  localeCompare :: "jsstring \<Rightarrow> jsstring \<Rightarrow> int"

fun startsWith :: "jsstring \<Rightarrow> jsstring \<Rightarrow> bool" where
  "startsWith s [] = True"
| "startsWith [] (d # q) = False"
| "startsWith (c # s) (d # q) = (c = d \<and> startsWith s q)"

text \<open>\<open>s.indexOf(q)\<close>: the first position where \<open>q\<close> starts in \<open>s\<close>, and \<open>-1\<close> when there is none.\<close>

fun indexOf_from :: "jsstring \<Rightarrow> jsstring \<Rightarrow> int \<Rightarrow> int" where
  "indexOf_from [] q i = (if q = [] then i else - 1)"
| "indexOf_from (c # s) q i = (if startsWith (c # s) q then i else indexOf_from s q (i + 1))"

definition indexOf :: "jsstring \<Rightarrow> jsstring \<Rightarrow> int" where
  "indexOf s q = indexOf_from s q 0"

definition String_includes :: "jsstring \<Rightarrow> jsstring \<Rightarrow> bool" where
  "String_includes s q = (indexOf s q \<noteq> - 1)"

text \<open>\<open>s.slice(start, stop)\<close>, with JavaScript's treatment of negative and too large indices.\<close>

definition slice :: "jsstring \<Rightarrow> int \<Rightarrow> int \<Rightarrow> jsstring" where
  "slice s start stop =
     (let len = int (length s);
          from = (if start < 0 then max (len + start) 0 else min start len);
          to = (if stop < 0 then max (len + stop) 0 else min stop len)
      in take (nat (to - from)) (drop (nat from) s))"

text \<open>\<open>s.replace(/\n/g, " ")\<close>.\<close>

definition replace_newlines :: "jsstring \<Rightarrow> jsstring" where
  "replace_newlines s = map (\<lambda>c. if c = 0x0A then 0x20 else c) s"

text \<open>\<open>xs.join(sep)\<close>.\<close>

fun Array_join :: "jsstring list \<Rightarrow> jsstring \<Rightarrow> jsstring" where
  "Array_join [] sep = []"
| "Array_join [x] sep = x"
| "Array_join (x # y # xs) sep = x @ sep @ Array_join (y # xs) sep"

text \<open>A length inside a template literal: the decimal digits of a natural number.\<close>

definition digit_unit :: "nat \<Rightarrow> code_unit" where
  "digit_unit d = of_nat (48 + d)"

function string_of_nat :: "nat \<Rightarrow> jsstring" where
  "string_of_nat n =
     (if n < 10 then [digit_unit n] else string_of_nat (n div 10) @ [digit_unit (n mod 10)])"
  by pat_completeness auto
termination
  by (relation "measure (\<lambda>n. n)") auto

declare string_of_nat.simps [simp del]

text \<open>
  \<open>xs.sort(cmp)\<close> is a stable sort by the comparison function: insertion from the right,
  an element going in front of the first one it does not come after. Every stable sort gives
  this list when the comparison function is consistent, that is, when \<open>cmp a b \<le> 0\<close> is a total
  and transitive relation.
\<close>

fun insert_sorted :: "('a \<Rightarrow> 'a \<Rightarrow> int) \<Rightarrow> 'a \<Rightarrow> 'a list \<Rightarrow> 'a list" where
  "insert_sorted cmp x [] = [x]"
| "insert_sorted cmp x (y # ys) =
     (if cmp x y \<le> 0 then x # y # ys else y # insert_sorted cmp x ys)"

definition Array_sort :: "('a \<Rightarrow> 'a \<Rightarrow> int) \<Rightarrow> 'a list \<Rightarrow> 'a list" where
  "Array_sort cmp xs = foldr (insert_sorted cmp) xs []"

text \<open>
  \<open>path.join\<close> puts a separator between its arguments (its normalisation of \<open>.\<close> and \<open>..\<close>
  segments is left out). The documentation directory is a partial map from paths to the text
  of the file there, as \<open>readFileSync\<close> decodes it: \<open>existsSync\<close> asks whether the path is in
  its domain, \<open>readFileSync\<close> returns the text.
\<close>

definition path_join :: "jsstring list \<Rightarrow> jsstring" where
  "path_join parts = Array_join parts (lit ''/'')"

type_synonym files = "jsstring \<Rightarrow> jsstring option"

text \<open>
  What an operation changes is the shared cache; what it does to the file system is a
  sequence of calls, recorded as it goes.
\<close>

datatype fs_call = ExistsSync jsstring | ReadFileSync jsstring

record world =
  cache :: "(jsstring, jsstring) LRUCache"
  fs_calls :: "fs_call list"

section \<open>The records of types.ts\<close>

text \<open>
  The literal unions of the declarations (\<open>category\<close>, \<open>context\<close>) are strings: the values come
  from \<open>JSON.parse\<close> and are only compared and printed. The field \<open>context\<close> of a token and of
  the options is \<open>ctx\<close>, the source's name being a keyword of Isabelle. A \<open>ToolTextResult\<close>
  always holds one text item, and is that text here.
\<close>

record ComponentEntry =
  name :: jsstring
  title :: jsstring
  description :: jsstring
  category :: jsstring
  sections :: "jsstring list"

record SearchResult =
  name :: jsstring
  title :: jsstring
  category :: jsstring
  matchType :: jsstring
  excerpt :: jsstring

record IconEntry =
  name :: jsstring
  category :: jsstring
  variants :: "jsstring list"
  classes :: "jsstring list"

record ColorDecisionToken =
  token :: jsstring
  ctx :: jsstring
  description :: jsstring
  light :: jsstring
  dark :: jsstring

record ColorValue =
  light :: jsstring
  dark :: jsstring

record ColorFamily =
  name :: jsstring
  category :: jsstring
  correspondences :: "(jsstring \<times> ColorValue) list"

record ColorsIndex =
  decisionTokens :: "ColorDecisionToken list"
  families :: "ColorFamily list"
  illustrativeNames :: "jsstring list"

text \<open>The \<open>options\<close> argument of \<open>getColorTokens\<close>; a property that is not given is \<open>None\<close>.\<close>

record ColorOptions =
  ctx :: "jsstring option"
  usage :: "jsstring option"
  family :: "jsstring option"

text \<open>The test \<open>if (x)\<close> on an optional jsstring: \<open>undefined\<close> and the empty jsstring are false.\<close>

definition truthy :: "jsstring option \<Rightarrow> bool" where
  "truthy x = (case x of None \<Rightarrow> False | Some s \<Rightarrow> s \<noteq> [])"

section \<open>The content accessor\<close>

definition readFileWithCache :: "files \<Rightarrow> jsstring \<Rightarrow> world \<Rightarrow> jsstring option \<times> world" where
  "readFileWithCache fs filePath w =
     (case LRUCache_get (cache w) filePath of
        (Some cached, c1) \<Rightarrow> (Some cached, w\<lparr>cache := c1\<rparr>)
      | (None, c1) \<Rightarrow>
          (let w1 = w\<lparr>cache := c1, fs_calls := fs_calls w @ [ExistsSync filePath]\<rparr>
           in case fs filePath of
                None \<Rightarrow> (None, w1)
              | Some content \<Rightarrow>
                  (Some content,
                   w1\<lparr>cache := LRUCache_set c1 filePath content,
                      fs_calls := fs_calls w1 @ [ReadFileSync filePath]\<rparr>)))"

section \<open>The component documentation resolver\<close>

definition getComponentDoc ::
  "host \<Rightarrow> files \<Rightarrow> ComponentEntry list \<Rightarrow> jsstring \<Rightarrow> jsstring \<Rightarrow> jsstring \<Rightarrow> world \<Rightarrow> jsstring \<times> world" where
  "getComponentDoc h fs index docsDir nm sec w =
     (case find (\<lambda>e. ComponentEntry.name e = nm \<or> ComponentEntry.name e = toLowerCase h nm) index of
        None \<Rightarrow>
          (let suggestions =
                 take 5
                   (map (\<lambda>e. ComponentEntry.name e @ lit '' ('' @ ComponentEntry.title e @ lit '')'')
                      (filter
                         (\<lambda>e. String_includes (ComponentEntry.name e) (toLowerCase h nm) \<or>
                              String_includes (toLowerCase h (ComponentEntry.title e)) (toLowerCase h nm))
                         index))
           in (lit ''Composant '' @ dquote @ nm @ dquote @ lit '' non trouv'' @ e_acute @ lit ''.'' @
               (if length suggestions > 0
                then lit '' Suggestions : '' @ Array_join suggestions (lit '', '') else []) @
               newline @ lit ''Utilisez list_components pour voir la liste compl'' @ e_grave @ lit ''te.'',
               w))
      | Some entry \<Rightarrow>
          if sec \<notin> set (ComponentEntry.sections entry)
          then (lit ''Section '' @ dquote @ sec @ dquote @ lit '' non disponible pour '' @
                ComponentEntry.name entry @ lit '' ('' @ ComponentEntry.title entry @
                lit ''). Sections disponibles : '' @
                Array_join (ComponentEntry.sections entry) (lit '', ''),
                w)
          else
            (let filePath =
                   path_join [docsDir, ComponentEntry.category entry, ComponentEntry.name entry,
                              sec @ lit ''.md''];
                 r = readFileWithCache fs filePath w
             in case fst r of
                  None \<Rightarrow>
                    (lit ''Section '' @ dquote @ sec @ dquote @ lit '' non disponible pour '' @
                     ComponentEntry.name entry @ lit '' ('' @ ComponentEntry.title entry @
                     lit ''). Sections disponibles : '' @
                     Array_join (ComponentEntry.sections entry) (lit '', ''),
                     snd r)
                | Some content \<Rightarrow>
                    (lit ''# '' @ ComponentEntry.title entry @ lit '' '' @ em_dash @ lit '' '' @ sec @
                     newline @ newline @ content,
                     snd r)))"

section \<open>The component search engine\<close>

definition metaMatch :: "host \<Rightarrow> ComponentEntry \<Rightarrow> jsstring \<Rightarrow> bool" where
  "metaMatch h entry q =
     (String_includes (toLowerCase h (ComponentEntry.name entry)) q \<or>
      String_includes (toLowerCase h (ComponentEntry.title entry)) q \<or>
      String_includes (toLowerCase h (ComponentEntry.description entry)) q)"

text \<open>The excerpt around a match at position \<open>idx\<close> of the content.\<close>

definition make_excerpt :: "jsstring \<Rightarrow> jsstring \<Rightarrow> int \<Rightarrow> jsstring" where
  "make_excerpt content q idx =
     (let start = max 0 (idx - 80);
          stop = min (int (length content)) (idx + int (length q) + 80)
      in (if start > 0 then lit ''...'' else []) @
         replace_newlines (slice content start stop) @
         (if stop < int (length content) then lit ''...'' else []))"

text \<open>
  The inner loop, over the sections of one entry: \<open>continue\<close> goes on with the remaining
  sections, \<open>break\<close> returns the result that was pushed.
\<close>

fun scan_sections ::
  "host \<Rightarrow> files \<Rightarrow> jsstring \<Rightarrow> ComponentEntry \<Rightarrow> jsstring \<Rightarrow> jsstring list \<Rightarrow> world \<Rightarrow>
   SearchResult option \<times> world" where
  "scan_sections h fs docsDir entry q [] w = (None, w)"
| "scan_sections h fs docsDir entry q (sec # rest) w =
     (let filePath =
            path_join [docsDir, ComponentEntry.category entry, ComponentEntry.name entry,
                       sec @ lit ''.md''];
          r = readFileWithCache fs filePath w
      in case fst r of
           None \<Rightarrow> scan_sections h fs docsDir entry q rest (snd r)
         | Some content \<Rightarrow>
             if content = [] then scan_sections h fs docsDir entry q rest (snd r)
             else
               (let lowerContent = toLowerCase h content;
                    idx = indexOf lowerContent q
                in if idx \<noteq> - 1
                   then (Some \<lparr>SearchResult.name = ComponentEntry.name entry,
                               title = ComponentEntry.title entry,
                               category = ComponentEntry.category entry,
                               matchType = lit ''content ('' @ sec @ lit '')'',
                               excerpt = make_excerpt content q idx\<rparr>,
                         snd r)
                   else scan_sections h fs docsDir entry q rest (snd r)))"

text \<open>The body of the outer loop for one entry: the result it pushes, if any.\<close>

definition search_entry ::
  "host \<Rightarrow> files \<Rightarrow> jsstring \<Rightarrow> jsstring \<Rightarrow> ComponentEntry \<Rightarrow> world \<Rightarrow> SearchResult option \<times> world" where
  "search_entry h fs docsDir q entry w =
     (if metaMatch h entry q
      then (Some \<lparr>SearchResult.name = ComponentEntry.name entry,
                  title = ComponentEntry.title entry,
                  category = ComponentEntry.category entry,
                  matchType = lit ''metadata'',
                  excerpt = ComponentEntry.description entry\<rparr>,
            w)
      else scan_sections h fs docsDir entry q (ComponentEntry.sections entry) w)"

fun search_loop ::
  "host \<Rightarrow> files \<Rightarrow> jsstring \<Rightarrow> jsstring \<Rightarrow> ComponentEntry list \<Rightarrow> SearchResult list \<Rightarrow> world \<Rightarrow>
   SearchResult list \<times> world" where
  "search_loop h fs docsDir q [] results w = (results, w)"
| "search_loop h fs docsDir q (entry # rest) results w =
     (let r = search_entry h fs docsDir q entry w
      in case fst r of
           None \<Rightarrow> search_loop h fs docsDir q rest results (snd r)
         | Some res \<Rightarrow> search_loop h fs docsDir q rest (results @ [res]) (snd r))"

text \<open>The array \<open>results\<close> when the loop is over.\<close>

definition search_results ::
  "host \<Rightarrow> files \<Rightarrow> ComponentEntry list \<Rightarrow> jsstring \<Rightarrow> jsstring \<Rightarrow> world \<Rightarrow> SearchResult list \<times> world" where
  "search_results h fs index docsDir query w = search_loop h fs docsDir (toLowerCase h query) index [] w"

definition render_result :: "SearchResult \<Rightarrow> jsstring" where
  "render_result r =
     lit ''- **'' @ SearchResult.name r @ lit ''** ('' @ SearchResult.title r @ lit '') ['' @
     SearchResult.category r @ lit ''] '' @ em_dash @ lit '' '' @ SearchResult.matchType r @
     newline @ lit ''  '' @ SearchResult.excerpt r"

definition searchComponents ::
  "host \<Rightarrow> files \<Rightarrow> ComponentEntry list \<Rightarrow> jsstring \<Rightarrow> jsstring \<Rightarrow> world \<Rightarrow> jsstring \<times> world" where
  "searchComponents h fs index docsDir query w =
     (let r = search_results h fs index docsDir query w;
          results = fst r
      in if length results = 0
         then (lit ''Aucun r'' @ e_acute @ lit ''sultat pour '' @ dquote @ query @ dquote @
               lit ''. Essayez un autre terme ou utilisez list_components pour voir tous les composants.'',
               snd r)
         else (string_of_nat (length results) @ lit '' r'' @ e_acute @ lit ''sultat(s) pour '' @
               dquote @ query @ dquote @ lit '' :'' @ newline @ newline @
               Array_join (map render_result results) (newline @ newline),
               snd r))"


section \<open>The icon search engine\<close>

definition ICON_CATEGORIES :: "jsstring list" where
  "ICON_CATEGORIES =
     [lit ''arrows'', lit ''buildings'', lit ''business'', lit ''communication'', lit ''design'',
      lit ''development'', lit ''device'', lit ''document'', lit ''editor'', lit ''finance'',
      lit ''health'', lit ''logo'', lit ''map'', lit ''media'', lit ''others'', lit ''system'', lit ''user'', lit ''weather'']"

definition icon_candidates :: "IconEntry list \<Rightarrow> jsstring option \<Rightarrow> IconEntry list" where
  "icon_candidates icons cat =
     (if truthy cat then filter (\<lambda>i. Some (IconEntry.category i) = cat) icons else icons)"

definition icon_score :: "host \<Rightarrow> jsstring \<Rightarrow> IconEntry \<Rightarrow> int" where
  "icon_score h q icon =
     (let nm = toLowerCase h (IconEntry.name icon)
      in if nm = q then 3
         else if startsWith nm q then 2
         else if String_includes nm q then 1
         else if list_ex (\<lambda>c. String_includes (toLowerCase h c) q) (IconEntry.classes icon) then 1
         else 0)"

text \<open>The loop that fills \<open>scored\<close>; an element \<open>{icon, score}\<close> is a pair.\<close>

fun score_loop ::
  "host \<Rightarrow> jsstring \<Rightarrow> IconEntry list \<Rightarrow> (IconEntry \<times> int) list \<Rightarrow> (IconEntry \<times> int) list" where
  "score_loop h q [] scored = scored"
| "score_loop h q (icon # rest) scored =
     (let score = icon_score h q icon
      in score_loop h q rest (if score > 0 then scored @ [(icon, score)] else scored))"

text \<open>
  The comparison function given to \<open>sort\<close>: \<open>b.score - a.score || a.icon.name.localeCompare(b.icon.name)\<close>,
  where \<open>||\<close> takes its right operand when the left one is zero.
\<close>

definition compare_scored :: "host \<Rightarrow> IconEntry \<times> int \<Rightarrow> IconEntry \<times> int \<Rightarrow> int" where
  "compare_scored h a b =
     (if snd b - snd a \<noteq> 0 then snd b - snd a
      else localeCompare h (IconEntry.name (fst a)) (IconEntry.name (fst b)))"

definition scored_icons :: "host \<Rightarrow> IconEntry list \<Rightarrow> jsstring \<Rightarrow> jsstring option \<Rightarrow> (IconEntry \<times> int) list" where
  "scored_icons h icons query cat = score_loop h (toLowerCase h query) (icon_candidates icons cat) []"

text \<open>The array \<open>limited\<close>.\<close>

definition limited_icons :: "host \<Rightarrow> IconEntry list \<Rightarrow> jsstring \<Rightarrow> jsstring option \<Rightarrow> (IconEntry \<times> int) list" where
  "limited_icons h icons query cat = take 20 (Array_sort (compare_scored h) (scored_icons h icons query cat))"

definition render_icon :: "IconEntry \<Rightarrow> jsstring" where
  "render_icon icon =
     (let vs = (if length (IconEntry.variants icon) > 0
                then Array_join (IconEntry.variants icon) (lit '', '') else lit ''sans variante'')
      in lit ''- **'' @ IconEntry.name icon @ lit ''** ['' @ IconEntry.category icon @ lit ''] '' @ em_dash @
         lit '' '' @ vs @ newline @ lit ''  Classes : '' @ Array_join (IconEntry.classes icon) (lit '', ''))"

definition searchIcons :: "host \<Rightarrow> IconEntry list \<Rightarrow> jsstring \<Rightarrow> jsstring option \<Rightarrow> jsstring" where
  "searchIcons h icons query cat =
     (let limited = limited_icons h icons query cat
      in if length limited = 0
         then (let catList =
                     (case cat of
                        Some c \<Rightarrow>
                          if c \<noteq> []
                          then lit ''Cat'' @ e_acute @ lit ''gorie '' @ dquote @ c @ dquote @ lit '' filtr'' @
                               e_acute @ lit ''e.''
                          else lit ''Cat'' @ e_acute @ lit ''gories disponibles : '' @
                               Array_join ICON_CATEGORIES (lit '', '')
                      | None \<Rightarrow>
                          lit ''Cat'' @ e_acute @ lit ''gories disponibles : '' @
                          Array_join ICON_CATEGORIES (lit '', ''))
               in lit ''Aucune ic'' @ o_circ @ lit ''ne trouv'' @ e_acute @ lit ''e pour '' @ dquote @ query @
                  dquote @ lit ''. '' @ catList)
         else string_of_nat (length limited) @ lit '' ic'' @ o_circ @ lit ''ne(s) trouv'' @ e_acute @
              lit ''e(s) pour '' @ dquote @ query @ dquote @
              (case cat of
                 Some c \<Rightarrow> if c \<noteq> [] then lit '' dans '' @ dquote @ c @ dquote else []
               | None \<Rightarrow> []) @
              lit '' :'' @ newline @ newline @
              Array_join (map (\<lambda>p. render_icon (fst p)) limited) newline)"

section \<open>The colour token engine\<close>

text \<open>\<open>[...new Set(xs)]\<close>: the distinct elements, each where it first occurs.\<close>

definition Set_values :: "'a list \<Rightarrow> 'a list" where
  "Set_values xs = foldl (\<lambda>acc x. if x \<in> set acc then acc else acc @ [x]) [] xs"

text \<open>The array \<open>tokens\<close> after the three filters, each applied when its option passes \<open>if\<close>.\<close>

definition filtered_tokens :: "host \<Rightarrow> ColorsIndex \<Rightarrow> ColorOptions \<Rightarrow> ColorDecisionToken list" where
  "filtered_tokens h colors options =
     (let tokens0 = decisionTokens colors;
          tokens1 =
            (case ColorOptions.ctx options of
               Some c \<Rightarrow>
                 if c \<noteq> [] then filter (\<lambda>t. ColorDecisionToken.ctx t = c) tokens0 else tokens0
             | None \<Rightarrow> tokens0);
          tokens2 =
            (case usage options of
               Some us \<Rightarrow>
                 if us \<noteq> []
                 then (let u = toLowerCase h us
                       in filter
                            (\<lambda>t. String_includes (toLowerCase h (token t)) u \<or>
                                 String_includes (toLowerCase h (ColorDecisionToken.description t)) u)
                            tokens1)
                 else tokens1
             | None \<Rightarrow> tokens1);
          tokens3 =
            (case family options of
               Some fa \<Rightarrow>
                 if fa \<noteq> []
                 then (let f = toLowerCase h fa
                       in filter (\<lambda>t. String_includes (toLowerCase h (token t)) f) tokens2)
                 else tokens2
             | None \<Rightarrow> tokens2)
      in tokens3)"

definition render_token :: "ColorDecisionToken \<Rightarrow> jsstring" where
  "render_token t =
     lit ''- '' @ backtick @ token t @ backtick @ newline @ lit ''  '' @
     ColorDecisionToken.description t @ newline @ lit ''  Clair : '' @ ColorDecisionToken.light t @
     lit '' | Sombre : '' @ ColorDecisionToken.dark t"

text \<open>What the first \<open>sections.push\<close> adds: nothing when no token is left.\<close>

definition decision_section :: "host \<Rightarrow> ColorsIndex \<Rightarrow> ColorOptions \<Rightarrow> jsstring list" where
  "decision_section h colors options =
     (let tokens = filtered_tokens h colors options
      in if length tokens > 0
         then [lit ''### Tokens de d'' @ e_acute @ lit ''cision'' @ newline @
               Array_join (map render_token tokens) newline]
         else [])"

definition render_family :: "ColorFamily \<Rightarrow> jsstring" where
  "render_family fam =
     lit ''### Famille '' @ dquote @ ColorFamily.name fam @ dquote @ lit '' ('' @
     ColorFamily.category fam @ lit '')'' @ newline @
     Array_join
       (map (\<lambda>kv. lit ''  '' @ fst kv @ lit '' : '' @ ColorValue.light (snd kv) @ lit '' (clair) / '' @
                  ColorValue.dark (snd kv) @ lit '' (sombre)'')
          (correspondences fam))
       newline"

definition family_sections :: "host \<Rightarrow> ColorsIndex \<Rightarrow> ColorOptions \<Rightarrow> jsstring list" where
  "family_sections h colors options =
     (case family options of
        Some fa \<Rightarrow>
          if fa \<noteq> []
          then (let f = toLowerCase h fa
                in map render_family
                     (filter
                        (\<lambda>fam. String_includes (toLowerCase h (ColorFamily.name fam)) f \<or>
                               String_includes (toLowerCase h (ColorFamily.category fam)) f)
                        (families colors)))
          else []
      | None \<Rightarrow> [])"

definition filter_part :: "jsstring \<Rightarrow> jsstring option \<Rightarrow> jsstring list" where
  "filter_part label x =
     (case x of
        Some s \<Rightarrow> if s \<noteq> [] then [label @ lit ''='' @ dquote @ s @ dquote] else []
      | None \<Rightarrow> [])"

definition getColorTokens :: "host \<Rightarrow> ColorsIndex \<Rightarrow> ColorOptions \<Rightarrow> jsstring" where
  "getColorTokens h colors options =
     (if \<not> truthy (ColorOptions.ctx options) \<and> \<not> truthy (usage options) \<and>
         \<not> truthy (family options)
      then (let contexts = Set_values (map ColorDecisionToken.ctx (decisionTokens colors));
                familyNames =
                  map (\<lambda>f. ColorFamily.name f @ lit '' ('' @ ColorFamily.category f @ lit '')'')
                    (families colors)
            in lit ''Tokens de couleur DSFR disponibles :'' @ newline @ newline @
               lit ''**Contextes :** '' @ Array_join contexts (lit '', '') @ newline @
               lit ''**Familles :** '' @ Array_join familyNames (lit '', '') @ newline @
               lit ''**Couleurs illustratives :** '' @
               Array_join (illustrativeNames colors) (lit '', '') @ newline @ newline @
               lit ''Utilisez les param'' @ e_grave @ lit ''tres context, usage ou family pour filtrer.'')
      else (let sects = decision_section h colors options @ family_sections h colors options
            in if length sects = 0
               then (let parts =
                           filter_part (lit ''context'') (ColorOptions.ctx options) @
                           filter_part (lit ''usage'') (usage options) @
                           filter_part (lit ''family'') (family options)
                     in lit ''Aucun token trouv'' @ e_acute @ lit '' pour '' @ Array_join parts (lit '', '') @
                        lit ''. Contextes disponibles : background, text, artwork. Familles : '' @
                        Array_join (map ColorFamily.name (families colors)) (lit '', ''))
               else Array_join sects (newline @ newline)))"

section \<open>What the specification says, in its own words\<close>

text \<open>
  A cache holds nothing but what the accessor stored in it, the text of a file under its
  path: every entry agrees with the file system.
\<close>

definition cache_coherent :: "files \<Rightarrow> world \<Rightarrow> bool" where
  "cache_coherent fs w = list_all (\<lambda>p. fs (fst p) = Some (snd p)) (lru_map (cache w))"

text \<open>The file of a section of an entry, at its conventional path.\<close>

definition section_file :: "files \<Rightarrow> jsstring \<Rightarrow> ComponentEntry \<Rightarrow> jsstring \<Rightarrow> jsstring option" where
  "section_file fs docsDir entry sec =
     fs (path_join [docsDir, ComponentEntry.category entry, ComponentEntry.name entry,
                    sec @ lit ''.md''])"

definition section_matches :: "host \<Rightarrow> files \<Rightarrow> jsstring \<Rightarrow> jsstring \<Rightarrow> ComponentEntry \<Rightarrow> jsstring \<Rightarrow> bool" where
  "section_matches h fs docsDir q entry sec =
     (case section_file fs docsDir entry sec of
        None \<Rightarrow> False
      | Some content \<Rightarrow> String_includes (toLowerCase h content) q)"

text \<open>
  The search of one entry as the specification has it: a metadata match gives the metadata
  result; otherwise the first section, in the order the entry declares, whose file contains
  the query gives a content result; otherwise there is none.
\<close>

definition metadata_result :: "ComponentEntry \<Rightarrow> SearchResult" where
  "metadata_result entry =
     \<lparr>SearchResult.name = ComponentEntry.name entry,
      title = ComponentEntry.title entry,
      category = ComponentEntry.category entry,
      matchType = lit ''metadata'',
      excerpt = ComponentEntry.description entry\<rparr>"

definition spec_entry_result ::
  "host \<Rightarrow> files \<Rightarrow> jsstring \<Rightarrow> jsstring \<Rightarrow> ComponentEntry \<Rightarrow> SearchResult option" where
  "spec_entry_result h fs docsDir q entry =
     (if metaMatch h entry q
      then Some (metadata_result entry)
      else (case find (section_matches h fs docsDir q entry) (ComponentEntry.sections entry) of
              None \<Rightarrow> None
            | Some sec \<Rightarrow>
                (case section_file fs docsDir entry sec of
                   None \<Rightarrow> None
                 | Some content \<Rightarrow>
                     Some \<lparr>SearchResult.name = ComponentEntry.name entry,
                           title = ComponentEntry.title entry,
                           category = ComponentEntry.category entry,
                           matchType = lit ''content ('' @ sec @ lit '')'',
                           excerpt =
                             make_excerpt content q (indexOf (toLowerCase h content) q)\<rparr>)))"

text \<open>A result that was made for an entry carries its name, title and category.\<close>

definition result_of :: "SearchResult \<Rightarrow> ComponentEntry \<Rightarrow> bool" where
  "result_of r entry =
     (SearchResult.name r = ComponentEntry.name entry \<and>
      SearchResult.title r = ComponentEntry.title entry \<and>
      SearchResult.category r = ComponentEntry.category entry)"

text \<open>
  The ranking of two scored icons: the higher score first, and for equal scores the name that
  does not come after the other. In \<open>ranked_before\<close> the names are compared as the host's
  collation compares them; in \<open>ranked_by_code_units\<close> by the lexicographic order of their code
  units.
\<close>

definition ranked_before :: "host \<Rightarrow> IconEntry \<times> int \<Rightarrow> IconEntry \<times> int \<Rightarrow> bool" where
  "ranked_before h a b =
     (snd b < snd a \<or>
      (snd a = snd b \<and> localeCompare h (IconEntry.name (fst a)) (IconEntry.name (fst b)) \<le> 0))"

definition ranked_by_code_units :: "IconEntry \<times> int \<Rightarrow> IconEntry \<times> int \<Rightarrow> bool" where
  "ranked_by_code_units a b =
     (snd b < snd a \<or> (snd a = snd b \<and> IconEntry.name (fst a) \<le> IconEntry.name (fst b)))"

text \<open>The payload of a search without results.\<close>

definition no_results_payload :: "jsstring \<Rightarrow> jsstring" where
  "no_results_payload query =
     lit ''Aucun r'' @ e_acute @ lit ''sultat pour '' @ dquote @ query @ dquote @
     lit ''. Essayez un autre terme ou utilisez list_components pour voir tous les composants.''"

text \<open>
  The suggestions of the resolver as the specification has them: the first five entries, in
  index order, whose name or lower-cased title contains the lower-cased query.
\<close>

definition spec_suggestions :: "host \<Rightarrow> ComponentEntry list \<Rightarrow> jsstring \<Rightarrow> ComponentEntry list" where
  "spec_suggestions h index nm =
     take 5
       (filter
          (\<lambda>e. String_includes (ComponentEntry.name e) (toLowerCase h nm) \<or>
               String_includes (toLowerCase h (ComponentEntry.title e)) (toLowerCase h nm))
          index)"

definition not_found_payload :: "jsstring \<Rightarrow> ComponentEntry list \<Rightarrow> jsstring" where
  "not_found_payload nm suggested =
     lit ''Composant '' @ dquote @ nm @ dquote @ lit '' non trouv'' @ e_acute @ lit ''.'' @
     (if suggested = [] then []
      else lit '' Suggestions : '' @
           Array_join
             (map (\<lambda>e. ComponentEntry.name e @ lit '' ('' @ ComponentEntry.title e @ lit '')'') suggested)
             (lit '', '')) @
     newline @ lit ''Utilisez list_components pour voir la liste compl'' @ e_grave @ lit ''te.''"

definition unavailable_payload :: "ComponentEntry \<Rightarrow> jsstring \<Rightarrow> jsstring" where
  "unavailable_payload entry sec =
     lit ''Section '' @ dquote @ sec @ dquote @ lit '' non disponible pour '' @
     ComponentEntry.name entry @ lit '' ('' @ ComponentEntry.title entry @
     lit ''). Sections disponibles : '' @ Array_join (ComponentEntry.sections entry) (lit '', '')"

text \<open>The entry the resolver selects for a name.\<close>

definition selected_entry :: "host \<Rightarrow> ComponentEntry list \<Rightarrow> jsstring \<Rightarrow> ComponentEntry option" where
  "selected_entry h index nm =
     find (\<lambda>e. ComponentEntry.name e = nm \<or> ComponentEntry.name e = toLowerCase h nm) index"


section \<open>Example data\<close>

text \<open>
  An example host. Its lower-casing maps the letters \<open>A\<close> to \<open>Z\<close> and nothing else, which is what
  \<open>String.prototype.toLowerCase\<close> does on ASCII text; the examples hold ASCII text only. Its
  collation compares two names without regard to case first, and puts the lower-case
  spelling first when they differ in case only, as the collations of the host do on ASCII
  names: \<open>alpha\<close> comes before \<open>Azure\<close>.
\<close>

definition ascii_lower_unit :: "code_unit \<Rightarrow> code_unit" where
  "ascii_lower_unit u = (if 65 \<le> u \<and> u \<le> 90 then u + 32 else u)"

definition ascii_lower :: "jsstring \<Rightarrow> jsstring" where
  "ascii_lower s = map ascii_lower_unit s"

definition compare_code_units :: "jsstring \<Rightarrow> jsstring \<Rightarrow> int" where
  "compare_code_units s t = (if s < t then - 1 else if s = t then 0 else 1)"

definition collate_ignoring_case :: "jsstring \<Rightarrow> jsstring \<Rightarrow> int" where
  "collate_ignoring_case s t =
     (let c = compare_code_units (ascii_lower s) (ascii_lower t)
      in if c \<noteq> 0 then c else compare_code_units t s)"

definition example_host :: host where
  "example_host = \<lparr>toLowerCase = ascii_lower, localeCompare = collate_ignoring_case\<rparr>"

text \<open>A small documentation directory, in the shape of the fixtures of the test suite.\<close>

definition button_entry :: ComponentEntry where
  "button_entry =
     \<lparr>ComponentEntry.name = lit ''button'', title = lit ''Bouton'',
      description = lit ''Declenche une action'', category = lit ''component'',
      sections = [lit ''overview'', lit ''code'']\<rparr>"

definition card_entry :: ComponentEntry where
  "card_entry =
     \<lparr>ComponentEntry.name = lit ''card'', title = lit ''Carte'',
      description = lit ''Regroupe des contenus'', category = lit ''component'',
      sections = [lit ''overview'', lit ''code'']\<rparr>"

definition example_index :: "ComponentEntry list" where
  "example_index = [button_entry, card_entry]"

text \<open>The overview of the card is declared by the index, and its file is missing.\<close>

definition example_files :: files where
  "example_files =
     [lit ''/docs/component/button/overview.md'' \<mapsto> lit ''Comme la carte, il est cliquable'',
      lit ''/docs/component/button/code.md'' \<mapsto> lit ''class fr-btn'',
      lit ''/docs/component/card/code.md'' \<mapsto> lit ''class fr-card'']"

definition example_world :: world where
  "example_world = \<lparr>cache = \<lparr>lru_map = [], maxSize = 50\<rparr>, fs_calls = []\<rparr>"

text \<open>A cache that holds, under the path of a section, a text that is not the file's.\<close>

definition stale_world :: world where
  "stale_world =
     \<lparr>cache = \<lparr>lru_map = [(lit ''/docs/component/card/overview.md'', lit ''zzz'')],
              maxSize = 50\<rparr>,
      fs_calls = []\<rparr>"

definition example_icons :: "IconEntry list" where
  "example_icons =
     [\<lparr>IconEntry.name = lit ''file-download'', category = lit ''document'',
       variants = [lit ''fill'', lit ''line''], classes = [lit ''fr-icon-file-download-fill'']\<rparr>,
      \<lparr>IconEntry.name = lit ''downloads'', category = lit ''system'',
       variants = [], classes = [lit ''fr-icon-downloads'']\<rparr>,
      \<lparr>IconEntry.name = lit ''download'', category = lit ''system'',
       variants = [lit ''fill'', lit ''line''], classes = [lit ''fr-icon-download-fill'']\<rparr>,
      \<lparr>IconEntry.name = lit ''home'', category = lit ''buildings'',
       variants = [], classes = [lit ''fr-icon-home'']\<rparr>]"

text \<open>Two icons whose names differ in the case of the first letter.\<close>

definition azure_icon :: IconEntry where
  "azure_icon =
     \<lparr>IconEntry.name = lit ''Azure'', category = lit ''logo'', variants = [],
      classes = [lit ''fr-icon-azure'']\<rparr>"

definition alpha_icon :: IconEntry where
  "alpha_icon =
     \<lparr>IconEntry.name = lit ''alpha'', category = lit ''editor'', variants = [],
      classes = [lit ''fr-icon-alpha'']\<rparr>"

definition text_error_token :: ColorDecisionToken where
  "text_error_token =
     \<lparr>token = lit ''$text-default-error'', ctx = lit ''text'', description = lit ''Texte erreur'',
      light = lit ''$error-425'', dark = lit ''$error-625''\<rparr>"

definition background_error_token :: ColorDecisionToken where
  "background_error_token =
     \<lparr>token = lit ''$background-flat-error'', ctx = lit ''background'',
      description = lit ''Fond erreur'', light = lit ''$error-425'', dark = lit ''$error-625''\<rparr>"

definition example_colors :: ColorsIndex where
  "example_colors =
     \<lparr>decisionTokens = [text_error_token, background_error_token],
      families = [], illustrativeNames = []\<rparr>"

section \<open>The bounded cache: proofs\<close>

subsection \<open>The map primitives\<close>

lemma Map_delete_length: "length (Map_delete m key) \<le> length m"
  by (simp add: Map_delete_def)

lemma Map_delete_length_less:
  "map_of m key = Some v \<Longrightarrow> length (Map_delete m key) < length m"
  unfolding Map_delete_def
  by (induction m) (auto simp: less_Suc_eq_le split: if_splits)

lemma Map_delete_keys: "fst ` set (Map_delete m key) = fst ` set m - {key}"
  by (auto simp: Map_delete_def)

lemma Map_delete_absent: "key \<notin> fst ` set m \<Longrightarrow> Map_delete m key = m"
  by (induction m) (auto simp: Map_delete_def)

lemma Map_delete_append: "Map_delete (m @ m') key = Map_delete m key @ Map_delete m' key"
  by (simp add: Map_delete_def)

lemma Map_set_fresh: "key \<notin> fst ` set m \<Longrightarrow> Map_set m key v = m @ [(key, v)]"
  by (induction m) auto

lemma Map_has_iff: "Map_has m key \<longleftrightarrow> key \<in> fst ` set m"
  by (simp add: Map_has_def map_of_eq_None_iff)

lemma Map_set_after_delete: "Map_set (Map_delete m key) key v = Map_delete m key @ [(key, v)]"
  by (simp add: Map_set_fresh Map_delete_keys)

lemma Map_delete_first_length:
  "m \<noteq> [] \<Longrightarrow> length (Map_delete m (fst (hd m))) < length m"
  by (cases m) (auto simp: Map_delete_def less_Suc_eq_le)

lemma Map_delete_first_distinct:
  "m \<noteq> [] \<Longrightarrow> distinct (map fst m) \<Longrightarrow> Map_delete m (fst (hd m)) = tl m"
  using Map_delete_absent [of "fst (hd m)" "tl m"]
  by (cases m) (auto simp: Map_delete_def)

lemma map_of_Map_delete_same: "map_of (Map_delete m key) key = None"
  by (simp add: map_of_eq_None_iff Map_delete_keys)

lemma map_of_Map_delete: "k \<noteq> key \<Longrightarrow> map_of (Map_delete m key) k = map_of m k"
  by (induction m) (auto simp: Map_delete_def)

subsection \<open>The cache methods, written out\<close>

lemma LRUCache_set_map:
  "lru_map (LRUCache_set c key v) =
     (let m2 = Map_delete (lru_map c) key @ [(key, v)]
      in if int (length m2) > maxSize c then Map_delete m2 (fst (hd m2)) else m2)"
proof -
  have m1: "(if Map_has (lru_map c) key then Map_delete (lru_map c) key else lru_map c)
             = Map_delete (lru_map c) key"
    by (simp add: Map_has_iff Map_delete_absent)
  have fk: "Map_first_key (Map_delete (lru_map c) key @ [(key, v)])
              = Some (fst (hd (Map_delete (lru_map c) key @ [(key, v)])))"
    by (cases "Map_delete (lru_map c) key") (simp_all add: Map_first_key_def)
  show ?thesis
    by (simp add: LRUCache_set_def m1 Map_set_after_delete Let_def Map_size_def fk)
qed

lemma LRUCache_set_maxSize: "maxSize (LRUCache_set c key v) = maxSize c"
  by (simp add: LRUCache_set_def Let_def split: option.splits)

lemma LRUCache_get_map:
  "lru_map (snd (LRUCache_get c key)) =
     (case map_of (lru_map c) key of None \<Rightarrow> lru_map c
      | Some v \<Rightarrow> Map_delete (lru_map c) key @ [(key, v)])"
  by (simp add: LRUCache_get_def Map_get_def Map_set_after_delete split: option.splits)

lemma LRUCache_get_maxSize: "maxSize (snd (LRUCache_get c key)) = maxSize c"
  by (simp add: LRUCache_get_def split: option.splits)

lemma LRUCache_get_value: "fst (LRUCache_get c key) = map_of (lru_map c) key"
  by (simp add: LRUCache_get_def Map_get_def split: option.splits)

subsection \<open>The capacity bound\<close>

lemma within_capacity_set: "within_capacity c \<Longrightarrow> within_capacity (LRUCache_set c key v)"
proof -
  assume a: "within_capacity c"
  let ?m2 = "Map_delete (lru_map c) key @ [(key, v)]"
  have l2: "length ?m2 \<le> length (lru_map c) + 1"
    using Map_delete_length [of "lru_map c" key] by simp
  have "length (Map_delete ?m2 (fst (hd ?m2))) < length ?m2"
    by (rule Map_delete_first_length) simp
  with l2 a show ?thesis
    unfolding within_capacity_def LRUCache_set_map LRUCache_set_maxSize
    by (auto simp: Let_def)
qed

lemma within_capacity_get: "within_capacity c \<Longrightarrow> within_capacity (snd (LRUCache_get c key))"
  unfolding within_capacity_def LRUCache_get_map LRUCache_get_maxSize
  using Map_delete_length_less [of "lru_map c" key]
  by (auto split: option.splits simp: less_Suc_eq_le)

lemma within_capacity_clear: "0 \<le> maxSize c \<Longrightarrow> within_capacity (LRUCache_clear c)"
  by (simp add: within_capacity_def LRUCache_clear_def)

lemma apply_cache_op_maxSize: "maxSize (apply_cache_op c x) = maxSize c"
  by (cases x) (simp_all add: LRUCache_get_maxSize LRUCache_set_maxSize LRUCache_clear_def)

lemma within_capacity_op:
  "0 \<le> maxSize c \<Longrightarrow> within_capacity c \<Longrightarrow> within_capacity (apply_cache_op c x)"
  by (cases x) (simp_all add: within_capacity_get within_capacity_set within_capacity_clear)

lemma within_capacity_run:
  "0 \<le> maxSize c \<Longrightarrow> within_capacity c \<Longrightarrow>
   within_capacity (run_cache_ops c ops) \<and> maxSize (run_cache_ops c ops) = maxSize c"
  unfolding run_cache_ops_def
proof (induction ops arbitrary: c)
  case Nil
  then show ?case by simp
next
  case (Cons x ops)
  from Cons.prems have "0 \<le> maxSize (apply_cache_op c x)" "within_capacity (apply_cache_op c x)"
    by (simp_all add: apply_cache_op_maxSize within_capacity_op)
  from Cons.IH [OF this] show ?case
    by (simp add: apply_cache_op_maxSize)
qed

text \<open>
  Claim C2. A cache constructed with capacity \<open>N\<close> (the constructor accepts exactly \<open>N \<ge> 1\<close>)
  reports, after any sequence of \<open>get\<close>, \<open>set\<close> and \<open>clear\<close> calls, a size between \<open>0\<close> and \<open>N\<close>.
  The sequence is arbitrary, so the bound holds after each of its calls.
\<close>

theorem cache_size_bounded:
  assumes "LRUCache_new N = Inr c"
  shows "0 \<le> LRUCache_size (run_cache_ops c ops) \<and> LRUCache_size (run_cache_ops c ops) \<le> N"
proof -
  from assms have c: "c = \<lparr>lru_map = [], maxSize = N\<rparr>" and N: "1 \<le> N"
    by (auto simp: LRUCache_new_def split: if_splits)
  have "within_capacity c" "0 \<le> maxSize c"
    using N by (simp_all add: c within_capacity_def)
  from within_capacity_run [OF this(2) this(1), of ops] show ?thesis
    by (simp add: within_capacity_def LRUCache_size_def Map_size_def c)
qed

theorem cache_size_bounded_witness:
  "LRUCache_new 2 = Inr \<lparr>lru_map = ([] :: (string \<times> nat) list), maxSize = 2\<rparr> \<and>
   LRUCache_size
     (run_cache_ops \<lparr>lru_map = [], maxSize = 2\<rparr>
        [Set ''a'' (1::nat), Set ''b'' 2, Get ''a'', Set ''c'' 3, Clear, Set ''d'' 4]) = 1"
proof -
  have n: "LRUCache_new 2 = Inr \<lparr>lru_map = ([] :: (string \<times> nat) list), maxSize = 2\<rparr>"
    by (simp add: LRUCache_new_def)
  have "LRUCache_size
     (run_cache_ops \<lparr>lru_map = [], maxSize = 2\<rparr>
        [Set ''a'' (1::nat), Set ''b'' 2, Get ''a'', Set ''c'' 3, Clear, Set ''d'' 4]) = 1"
    by (simp add: run_cache_ops_def LRUCache_set_def LRUCache_get_def LRUCache_clear_def
        LRUCache_size_def Map_size_def Map_has_def Map_get_def Map_delete_def Map_first_key_def)
  with n cache_size_bounded [OF n] show ?thesis by simp
qed

text \<open>
  Claim C3, amended. In a cache of capacity at least \<open>2\<close> that holds key \<open>k\<close>, \<open>get(k)\<close> followed
  by \<open>set(k', v')\<close> for a key \<open>k'\<close> the cache does not hold leaves \<open>k\<close> in the cache: \<open>get(k)\<close>
  still returns its value. With capacity \<open>1\<close> the new key takes the only place.
\<close>

theorem get_then_set_keeps_key:
  assumes "2 \<le> maxSize c"
    and "fst (LRUCache_get c k) = Some v"
    and "k' \<notin> fst ` set (lru_map c)"
  shows "fst (LRUCache_get (LRUCache_set (snd (LRUCache_get c k)) k' v') k) = Some v"
proof -
  let ?m = "lru_map c"
  let ?c1 = "snd (LRUCache_get c k)"
  from assms(2) have kv: "map_of ?m k = Some v"
    by (simp add: LRUCache_get_value)
  then have kin: "k \<in> fst ` set ?m"
    by (metis map_of_eq_None_iff option.distinct(1))
  with assms(3) have ne: "k \<noteq> k'" by auto
  let ?m1 = "Map_delete ?m k @ [(k, v)]"
  have m1: "lru_map ?c1 = ?m1"
    by (simp add: LRUCache_get_map kv)
  have k'm1: "k' \<notin> fst ` set ?m1"
    using assms(3) ne by (auto simp: Map_delete_def)
  let ?m2 = "?m1 @ [(k', v')]"
  have m2: "Map_delete (lru_map ?c1) k' @ [(k', v')] = ?m2"
    using k'm1 by (simp add: m1 Map_delete_absent)
  have found: "map_of ?m2 k = Some v"
    using ne by (simp add: map_of_Map_delete_same map_add_def)
  have "map_of (lru_map (LRUCache_set ?c1 k' v')) k = Some v"
  proof (cases "int (length ?m2) > maxSize c")
    case False
    then show ?thesis
      using found by (simp add: LRUCache_set_map LRUCache_get_maxSize m2 Let_def)
  next
    case True
    with assms(1) have "Map_delete ?m k \<noteq> []" by auto
    then obtain p rest where pr: "Map_delete ?m k = p # rest"
      by (cases "Map_delete ?m k") auto
    then have "p \<in> set (Map_delete ?m k)" by simp
    then have pk: "fst p \<noteq> k" by (simp add: Map_delete_def)
    have "map_of (Map_delete ?m2 (fst (hd ?m2))) k = Some v"
    proof -
      have "Map_delete ?m2 (fst (hd ?m2)) = Map_delete ?m2 (fst p)"
        by (simp add: pr)
      then show ?thesis
        using pk found by (simp only: map_of_Map_delete [OF pk [symmetric]])
    qed
    with True show ?thesis
      by (simp add: LRUCache_set_map LRUCache_get_maxSize m2 Let_def)
  qed
  then show ?thesis
    by (simp add: LRUCache_get_value)
qed

lemma set_all_snoc:
  "set_all c (kvs @ [(k, v)]) = LRUCache_set (set_all c kvs) k v"
  by (simp add: set_all_def)

lemma set_all_maxSize: "maxSize (set_all c kvs) = maxSize c"
  by (induction kvs rule: rev_induct) (simp_all add: set_all_def LRUCache_set_maxSize)

lemma set_all_no_overflow:
  "lru_map c = [] \<Longrightarrow> distinct (map fst kvs) \<Longrightarrow> int (length kvs) \<le> maxSize c \<Longrightarrow>
   lru_map (set_all c kvs) = kvs"
proof (induction kvs rule: rev_induct)
  case Nil
  then show ?case by (simp add: set_all_def)
next
  case (snoc p kvs)
  then have IH: "lru_map (set_all c kvs) = kvs" by simp
  from snoc.prems have fresh: "fst p \<notin> fst ` set kvs" by auto
  have "lru_map (LRUCache_set (set_all c kvs) (fst p) (snd p)) = kvs @ [p]"
    using snoc.prems(3) fresh
    by (simp add: LRUCache_set_map IH set_all_maxSize Map_delete_absent Let_def)
  then show ?case
    using set_all_snoc [of c kvs "fst p" "snd p"] by simp
qed

lemma set_overflow_evicts_first:
  assumes "lru_map c = m" "m \<noteq> []" "distinct (map fst m)" "int (length m) = maxSize c"
    and "k \<notin> fst ` set m"
  shows "lru_map (LRUCache_set c k v) = tl m @ [(k, v)]"
proof -
  have d: "distinct (map fst (m @ [(k, v)]))"
    using assms(3,5) by simp
  have "Map_delete (m @ [(k, v)]) (fst (hd (m @ [(k, v)]))) = tl (m @ [(k, v)])"
    by (rule Map_delete_first_distinct [OF _ d]) simp
  then show ?thesis
    using assms by (simp add: LRUCache_set_map Map_delete_absent Let_def)
qed

lemma distinct_Map_delete:
  "distinct (map fst m) \<Longrightarrow> distinct (map fst (Map_delete m key))"
  by (simp add: Map_delete_def distinct_map_filter)

lemma distinct_after_delete_append:
  "distinct (map fst m) \<Longrightarrow> distinct (map fst (Map_delete m key @ [(key, v)]))"
  using Map_delete_keys [of m key] by (simp add: distinct_Map_delete)

lemma distinct_keys_set:
  "distinct (map fst (lru_map c)) \<Longrightarrow> distinct (map fst (lru_map (LRUCache_set c key v)))"
  using distinct_after_delete_append [of "lru_map c" key v]
  by (simp add: LRUCache_set_map Let_def distinct_Map_delete)

lemma distinct_keys_get:
  "distinct (map fst (lru_map c)) \<Longrightarrow> distinct (map fst (lru_map (snd (LRUCache_get c key))))"
  using distinct_after_delete_append [of "lru_map c" key]
  by (simp add: LRUCache_get_map split: option.splits)

lemma distinct_keys_op:
  "distinct (map fst (lru_map c)) \<Longrightarrow> distinct (map fst (lru_map (apply_cache_op c x)))"
  by (cases x) (simp_all add: distinct_keys_get distinct_keys_set LRUCache_clear_def)

lemma distinct_keys_run:
  "distinct (map fst (lru_map c)) \<Longrightarrow> distinct (map fst (lru_map (run_cache_ops c ops)))"
  unfolding run_cache_ops_def
  by (induction ops arbitrary: c) (simp_all add: distinct_keys_op)

lemma LRUCache_set_distinct_map:
  assumes "distinct (map fst (lru_map c))"
  shows "lru_map (LRUCache_set c key v) =
           (let m2 = Map_delete (lru_map c) key @ [(key, v)]
            in if int (length m2) > maxSize c then tl m2 else m2)"
proof -
  let ?m2 = "Map_delete (lru_map c) key @ [(key, v)]"
  have "Map_delete ?m2 (fst (hd ?m2)) = tl ?m2"
    by (rule Map_delete_first_distinct [OF _ distinct_after_delete_append [OF assms]]) simp
  then show ?thesis
    by (simp add: LRUCache_set_map Let_def)
qed

lemma set_all_suffix:
  assumes "distinct (map fst (lru_map c))" and "int (length (lru_map c)) \<le> maxSize c"
  shows "distinct (map fst kvs) \<Longrightarrow> int (length kvs) \<le> maxSize c \<Longrightarrow>
         \<exists>rest. lru_map (set_all c kvs) = rest @ kvs \<and> distinct (map fst (rest @ kvs)) \<and>
                int (length (rest @ kvs)) \<le> maxSize c"
proof (induction kvs rule: rev_induct)
  case Nil
  with assms show ?case by (simp add: set_all_def)
next
  case (snoc p kvs)
  from snoc obtain rest where m: "lru_map (set_all c kvs) = rest @ kvs"
    and d: "distinct (map fst (rest @ kvs))"
    and l: "int (length (rest @ kvs)) \<le> maxSize c"
    by auto
  let ?c = "set_all c kvs"
  let ?k = "fst p"
  from snoc.prems(1) have fresh: "?k \<notin> fst ` set kvs" by auto
  let ?r = "Map_delete rest ?k"
  have m2: "Map_delete (lru_map ?c) ?k @ [(?k, snd p)] = ?r @ (kvs @ [p])"
    using fresh by (simp add: m Map_delete_append Map_delete_absent)
  have d2: "distinct (map fst (?r @ (kvs @ [p])))"
    using distinct_after_delete_append [of "lru_map ?c" ?k "snd p"] d
    unfolding m2 by (simp add: m)
  have l2: "length ?r \<le> length rest"
    by (rule Map_delete_length)
  have dc: "distinct (map fst (lru_map ?c))" using d by (simp add: m)
  have step: "lru_map (set_all c (kvs @ [p])) =
        (if int (length (?r @ (kvs @ [p]))) > maxSize c then tl (?r @ (kvs @ [p]))
         else ?r @ (kvs @ [p]))"
    using LRUCache_set_distinct_map [OF dc, of ?k "snd p"] set_all_snoc [of c kvs ?k "snd p"]
    unfolding m2 by (simp add: Let_def set_all_maxSize)
  show ?case
  proof (cases "int (length (?r @ (kvs @ [p]))) > maxSize c")
    case False
    with step d2 show ?thesis by auto
  next
    case True
    with snoc.prems(2) have "?r \<noteq> []" by auto
    then have tl: "tl (?r @ (kvs @ [p])) = tl ?r @ (kvs @ [p])" by simp
    have "distinct (map fst (tl (?r @ (kvs @ [p]))))"
      using d2 by (metis distinct_tl map_tl)
    moreover have "int (length (tl ?r @ (kvs @ [p]))) \<le> maxSize c"
      using l l2 \<open>?r \<noteq> []\<close> by (cases ?r) auto
    ultimately show ?thesis
      using step True tl by auto
  qed
qed

lemma reachable_cache:
  assumes "LRUCache_new N = Inr c0"
  shows "1 \<le> N \<and> maxSize (run_cache_ops c0 ops) = N \<and>
         within_capacity (run_cache_ops c0 ops) \<and>
         distinct (map fst (lru_map (run_cache_ops c0 ops)))"
proof -
  from assms have c: "c0 = \<lparr>lru_map = [], maxSize = N\<rparr>" and N: "1 \<le> N"
    by (auto simp: LRUCache_new_def split: if_splits)
  have "within_capacity c0" "0 \<le> maxSize c0" "distinct (map fst (lru_map c0))"
    using N by (simp_all add: c within_capacity_def)
  with within_capacity_run [of c0 ops] distinct_keys_run [of c0 ops] N show ?thesis
    by (simp add: c)
qed

text \<open>
  Claim C1. A cache is made with capacity \<open>N \<ge> 1\<close> and used in any way; then \<open>set\<close> is called
  for \<open>N + 1\<close> distinct keys \<open>k1, ..., k(N+1)\<close> in this order, with no \<open>get\<close> in between.
  Afterwards the cache holds exactly \<open>k2, ..., k(N+1)\<close> with the values they were given: its
  size is \<open>N\<close>, \<open>get(k1)\<close> finds nothing and \<open>get(ki)\<close> returns the value of \<open>ki\<close> for every other
  key. Each \<open>set\<close> that overflows the capacity evicts exactly one entry, the first in recency
  order. In a new cache the first \<open>N\<close> calls evict nothing and the last one evicts \<open>k1\<close>.
\<close>

theorem set_overflow_evicts_least_recent:
  assumes "LRUCache_new N = Inr c0" and "c = run_cache_ops c0 ops"
    and "length ks = nat N + 1" and "distinct ks" and "length vs = length ks"
  shows "lru_map (set_all c (zip ks vs)) = zip (tl ks) (tl vs) \<and>
         LRUCache_size (set_all c (zip ks vs)) = N \<and>
         fst (LRUCache_get (set_all c (zip ks vs)) (hd ks)) = None \<and>
         (\<forall>i. 1 \<le> i \<and> i < length ks \<longrightarrow>
              fst (LRUCache_get (set_all c (zip ks vs)) (ks ! i)) = Some (vs ! i)) \<and>
         (\<forall>k v. lru_map (LRUCache_set c k v) =
                  (let m2 = Map_delete (lru_map c) k @ [(k, v)]
                   in if N < int (length m2) then tl m2 else m2)) \<and>
         (ops = [] \<longrightarrow>
            (\<forall>j \<le> nat N. lru_map (set_all c (take j (zip ks vs))) = take j (zip ks vs)))"
proof -
  define kvs where "kvs = zip ks vs"
  from reachable_cache [OF assms(1), of ops] assms(2)
  have N: "1 \<le> N" and mx: "maxSize c = N" and cap: "int (length (lru_map c)) \<le> maxSize c"
    and dc: "distinct (map fst (lru_map c))"
    by (simp_all add: within_capacity_def)
  have len: "length kvs = nat N + 1"
    using assms(3,5) by (simp add: kvs_def)
  have keys: "map fst kvs = ks"
    using assms(5) by (simp add: kvs_def)
  then have dist: "distinct (map fst kvs)"
    using assms(4) by simp
  have ne: "kvs \<noteq> []" using len by auto
  have split: "kvs = butlast kvs @ [last kvs]"
    using ne by simp
  have bl: "butlast kvs = take (nat N) kvs"
    using len by (simp add: butlast_conv_take)
  have bd: "distinct (map fst (butlast kvs))"
    using dist by (simp add: bl take_map [symmetric] distinct_take)
  have blen: "length (butlast kvs) = nat N" using len by simp
  have full: "lru_map (set_all c (butlast kvs)) = butlast kvs"
  proof -
    have "int (length (butlast kvs)) \<le> maxSize c" using blen N mx by simp
    from set_all_suffix [OF dc cap bd this] obtain rest where
      r: "lru_map (set_all c (butlast kvs)) = rest @ butlast kvs"
      and "int (length (rest @ butlast kvs)) \<le> maxSize c" by blast
    with blen N mx have "rest = []" by simp
    with r show ?thesis by simp
  qed
  have lastfresh: "fst (last kvs) \<notin> fst ` set (butlast kvs)"
  proof -
    have "distinct (map fst (butlast kvs) @ [fst (last kvs)])"
      using dist split by (metis map_append list.simps(8,9))
    then show ?thesis by simp
  qed
  have bne: "butlast kvs \<noteq> []"
  proof -
    have "0 < nat N" using N by simp
    with blen have "0 < length (butlast kvs)" by (simp only:)
    then show "butlast kvs \<noteq> []" by (metis length_greater_0_conv)
  qed
  have "lru_map (LRUCache_set (set_all c (butlast kvs)) (fst (last kvs)) (snd (last kvs)))
          = tl (butlast kvs) @ [(fst (last kvs), snd (last kvs))]"
  proof (rule set_overflow_evicts_first [OF full bne bd _ lastfresh])
    show "int (length (butlast kvs)) = maxSize (set_all c (butlast kvs))"
      using blen N mx by (simp add: set_all_maxSize)
  qed
  moreover have "set_all c kvs = LRUCache_set (set_all c (butlast kvs)) (fst (last kvs)) (snd (last kvs))"
    using set_all_snoc [of c "butlast kvs" "fst (last kvs)" "snd (last kvs)"] split by simp
  moreover have "tl (butlast kvs) @ [last kvs] = tl kvs"
    using bne split by (metis tl_append2)
  ultimately have final: "lru_map (set_all c kvs) = tl kvs"
    by simp
  have tlz: "tl kvs = zip (tl ks) (tl vs)"
    unfolding kvs_def by (cases ks; cases vs) simp_all
  have size: "LRUCache_size (set_all c kvs) = N"
    using len N by (simp add: LRUCache_size_def Map_size_def final)
  have ksne: "ks \<noteq> []" using assms(3) by auto
  have hd_absent: "fst (LRUCache_get (set_all c kvs) (hd ks)) = None"
  proof -
    have "hd ks \<notin> set (tl ks)"
      using assms(4) ksne by (cases ks) auto
    moreover have "fst ` set (tl kvs) = set (tl ks)"
      using keys by (metis map_tl set_map)
    ultimately show ?thesis
      by (simp add: LRUCache_get_value final map_of_eq_None_iff)
  qed
  have present: "fst (LRUCache_get (set_all c kvs) (ks ! i)) = Some (vs ! i)"
    if i1: "1 \<le> i" and i2: "i < length ks" for i
  proof -
    obtain i' where i': "i = Suc i'" using i1 by (cases i) auto
    have d: "distinct (tl ks)" using assms(4) by (simp add: distinct_tl)
    have l: "length (tl ks) = length (tl vs)" using assms(5) by simp
    have "i' < length (tl vs)" using i2 i' assms(5) by simp
    from map_of_zip_nth [OF l d this]
    have "map_of (zip (tl ks) (tl vs)) (tl ks ! i') = Some (tl vs ! i')" .
    moreover have "tl ks ! i' = ks ! i" "tl vs ! i' = vs ! i"
      using i2 i' assms(5) by (simp_all add: nth_tl)
    ultimately show ?thesis
      by (simp add: LRUCache_get_value final tlz)
  qed
  have step: "lru_map (LRUCache_set c k v) =
                  (let m2 = Map_delete (lru_map c) k @ [(k, v)]
                   in if N < int (length m2) then tl m2 else m2)" for k v
    using LRUCache_set_distinct_map [OF dc, of k v] by (simp add: mx)
  have prefix: "lru_map (set_all c (take j kvs)) = take j kvs" if e: "ops = []" and j: "j \<le> nat N" for j
  proof (rule set_all_no_overflow)
    show "lru_map c = []"
      using assms(1,2) e by (auto simp: run_cache_ops_def LRUCache_new_def split: if_splits)
    show "distinct (map fst (take j kvs))"
      using dist by (simp add: take_map [symmetric] distinct_take)
    show "int (length (take j kvs)) \<le> maxSize c"
      using j len N mx by simp
  qed
  show ?thesis
    using final size hd_absent present step prefix
    unfolding kvs_def [symmetric] tlz [symmetric] by blast
qed

theorem set_overflow_evicts_least_recent_witness:
  "LRUCache_new 3 = Inr \<lparr>lru_map = ([] :: (string \<times> nat) list), maxSize = 3\<rparr> \<and>
   lru_map (set_all (run_cache_ops \<lparr>lru_map = [], maxSize = 3\<rparr> [])
              [(''a'', 1::nat), (''b'', 2), (''c'', 3), (''d'', 4)])
     = [(''b'', 2), (''c'', 3), (''d'', 4)]"
proof -
  have n: "LRUCache_new 3 = Inr \<lparr>lru_map = ([] :: (string \<times> nat) list), maxSize = 3\<rparr>"
    by (simp add: LRUCache_new_def)
  have h: "length [''a'', ''b'', ''c'', ''d''] = nat 3 + 1"
    "distinct [''a'', ''b'', ''c'', ''d'']"
    "length [1::nat, 2, 3, 4] = length [''a'', ''b'', ''c'', ''d'']"
    by simp_all
  from set_overflow_evicts_least_recent [OF n refl h, of "[]"] n
  show ?thesis by simp
qed

theorem get_then_set_keeps_key_witness:
  "fst (LRUCache_get
          (LRUCache_set (snd (LRUCache_get \<lparr>lru_map = [(''a'', 1::nat), (''b'', 2)], maxSize = 2\<rparr> ''a''))
             ''c'' 3) ''a'') = Some 1"
proof -
  let ?c = "\<lparr>lru_map = [(''a'', 1::nat), (''b'', 2)], maxSize = 2\<rparr>"
  have h: "2 \<le> maxSize ?c" "fst (LRUCache_get ?c ''a'') = Some 1"
    "''c'' \<notin> fst ` set (lru_map ?c)"
    by (simp_all add: LRUCache_get_def Map_get_def)
  from get_then_set_keeps_key [OF h] show ?thesis .
qed

theorem get_then_set_capacity_one_counterexample:
  "LRUCache_new 1 = Inr \<lparr>lru_map = ([] :: (string \<times> nat) list), maxSize = 1\<rparr> \<and>
   LRUCache_set \<lparr>lru_map = [], maxSize = 1\<rparr> ''a'' (1::nat) = \<lparr>lru_map = [(''a'', 1)], maxSize = 1\<rparr> \<and>
   fst (LRUCache_get \<lparr>lru_map = [(''a'', 1::nat)], maxSize = 1\<rparr> ''a'') = Some 1 \<and>
   ''b'' \<notin> fst ` set (lru_map \<lparr>lru_map = [(''a'', 1::nat)], maxSize = 1\<rparr>) \<and>
   fst (LRUCache_get
          (LRUCache_set (snd (LRUCache_get \<lparr>lru_map = [(''a'', 1::nat)], maxSize = 1\<rparr> ''a''))
             ''b'' 2) ''a'') = None"
  by (simp add: LRUCache_new_def LRUCache_set_def LRUCache_get_def Map_get_def Map_has_def
      Map_delete_def Map_size_def Map_first_key_def)

section \<open>Strings: proofs\<close>

lemma startsWith_iff: "startsWith s q \<longleftrightarrow> (\<exists>b. s = q @ b)"
  by (induction s q rule: startsWith.induct) auto

lemma indexOf_from_range: "0 \<le> i \<Longrightarrow> indexOf_from s q i = - 1 \<or> i \<le> indexOf_from s q i"
proof (induction s arbitrary: i)
  case Nil
  then show ?case by simp
next
  case (Cons c s)
  from Cons.IH [of "i + 1"] Cons.prems show ?case by auto
qed

lemma indexOf_from_found_iff:
  "0 \<le> i \<Longrightarrow> indexOf_from s q i \<noteq> - 1 \<longleftrightarrow> (\<exists>a b. s = a @ q @ b)"
proof (induction s arbitrary: i)
  case Nil
  then show ?case by auto
next
  case (Cons c s)
  show ?case
  proof (cases "startsWith (c # s) q")
    case True
    then obtain b where "c # s = [] @ q @ b" by (auto simp: startsWith_iff)
    then have "\<exists>a b. c # s = a @ q @ b" by blast
    with True Cons.prems show ?thesis by simp
  next
    case False
    have "(\<exists>a b. c # s = a @ q @ b) \<longleftrightarrow> (\<exists>a b. s = a @ q @ b)"
    proof
      assume "\<exists>a b. c # s = a @ q @ b"
      then obtain a b where ab: "c # s = a @ q @ b" by blast
      with False have "a \<noteq> []" by (auto simp: startsWith_iff)
      then obtain a' where "a = c # a'" using ab by (cases a) auto
      with ab have "s = a' @ q @ b" by simp
      then show "\<exists>a b. s = a @ q @ b" by blast
    next
      assume "\<exists>a b. s = a @ q @ b"
      then obtain a b where "s = a @ q @ b" by blast
      then have "c # s = (c # a) @ q @ b" by simp
      then show "\<exists>a b. c # s = a @ q @ b" by blast
    qed
    with False Cons.IH [of "i + 1"] Cons.prems show ?thesis by simp
  qed
qed

lemma String_includes_iff: "String_includes s q \<longleftrightarrow> (\<exists>a b. s = a @ q @ b)"
  by (simp add: String_includes_def indexOf_def indexOf_from_found_iff)

lemma String_includes_empty: "String_includes s []"
proof -
  have "s = [] @ [] @ s" by simp
  then show ?thesis unfolding String_includes_iff by blast
qed

lemma not_includes_nonempty: "\<not> String_includes s q \<Longrightarrow> q \<noteq> []"
  using String_includes_empty by blast

lemma indexOf_empty_content: "q \<noteq> [] \<Longrightarrow> indexOf [] q = - 1"
  by (simp add: indexOf_def)

lemma string_of_nat_hd: "string_of_nat n \<noteq> [] \<and> hd (string_of_nat n) \<in> digit_unit ` {0..<10}"
proof (induction n rule: string_of_nat.induct)
  case (1 n)
  show ?case
  proof (cases "n < 10")
    case True
    then show ?thesis by (simp add: string_of_nat.simps [of n])
  next
    case False
    with 1 show ?thesis by (simp add: string_of_nat.simps [of n])
  qed
qed


lemma digit_unit_not_A: "d < 10 \<Longrightarrow> digit_unit d \<noteq> 0x41"
proof -
  assume "d < 10"
  then have "d = 0 \<or> d = 1 \<or> d = 2 \<or> d = 3 \<or> d = 4 \<or> d = 5 \<or> d = 6 \<or> d = 7 \<or> d = 8 \<or> d = 9"
    by arith
  then show ?thesis by (auto simp: digit_unit_def)
qed

section \<open>The resolver: proofs\<close>

lemma selected_entry_None_iff:
  "selected_entry h index nm = None \<longleftrightarrow>
     (\<forall>e \<in> set index. ComponentEntry.name e \<noteq> nm \<and> ComponentEntry.name e \<noteq> toLowerCase h nm)"
  by (auto simp: selected_entry_def find_None_iff)

lemma getComponentDoc_not_found:
  "selected_entry h index nm = None \<Longrightarrow>
   getComponentDoc h fs index docsDir nm sec w = (not_found_payload nm (spec_suggestions h index nm), w)"
  by (simp add: getComponentDoc_def selected_entry_def [symmetric] not_found_payload_def
      spec_suggestions_def Let_def take_map)

lemma getComponentDoc_found:
  "selected_entry h index nm = Some entry \<Longrightarrow>
   getComponentDoc h fs index docsDir nm sec w =
     (if sec \<notin> set (ComponentEntry.sections entry) then (unavailable_payload entry sec, w)
      else (let r = readFileWithCache fs
                      (path_join [docsDir, ComponentEntry.category entry,
                                  ComponentEntry.name entry, sec @ lit ''.md'']) w
            in case fst r of
                 None \<Rightarrow> (unavailable_payload entry sec, snd r)
               | Some content \<Rightarrow>
                   (lit ''# '' @ ComponentEntry.title entry @ lit '' '' @ em_dash @ lit '' '' @ sec @
                    newline @ newline @ content, snd r)))"
  by (simp add: getComponentDoc_def selected_entry_def [symmetric] unavailable_payload_def Let_def
      split: option.split)

lemma spec_suggestions_length: "length (spec_suggestions h index nm) \<le> 5"
  by (simp add: spec_suggestions_def)

lemma spec_suggestions_substring:
  "spec_suggestions h index nm =
     take 5 (filter (\<lambda>e. (\<exists>a b. ComponentEntry.name e = a @ toLowerCase h nm @ b) \<or>
                         (\<exists>a b. toLowerCase h (ComponentEntry.title e) = a @ toLowerCase h nm @ b))
               index)"
  by (simp add: spec_suggestions_def String_includes_iff)

text \<open>
  Claim C7. When the name matches no entry, the resolver returns the not-found payload, which
  quotes the name as given and lists the suggestions: the first (at most five) entries, in
  index order, whose name or lower-cased title contains the lower-cased name as a substring,
  lower-cased by the host whatever its lower-casing is. The list may be empty; the payload is
  returned all the same and nothing is read.
\<close>

theorem not_found_lists_suggestions:
  assumes "\<forall>e \<in> set index. ComponentEntry.name e \<noteq> nm \<and> ComponentEntry.name e \<noteq> toLowerCase h nm"
  shows "getComponentDoc h fs index docsDir nm sec w =
           (not_found_payload nm (spec_suggestions h index nm), w) \<and>
         length (spec_suggestions h index nm) \<le> 5 \<and>
         spec_suggestions h index nm =
           take 5 (filter (\<lambda>e. (\<exists>a b. ComponentEntry.name e = a @ toLowerCase h nm @ b) \<or>
                               (\<exists>a b. toLowerCase h (ComponentEntry.title e) = a @ toLowerCase h nm @ b))
                     index)"
  using assms getComponentDoc_not_found [of h index nm fs docsDir sec w]
    spec_suggestions_length [of h index nm] spec_suggestions_substring [of h index nm]
  by (simp add: selected_entry_None_iff)

text \<open>
  Claim C8. For an entry that was matched, the resolver returns the unavailable-section
  payload, which names the entry and lists the sections the entry declares, both when the
  section is not one of them and when it is but the read finds no file; the two texts are the
  same.
\<close>

theorem unavailable_section_same_payload:
  assumes "selected_entry h index nm = Some entry"
    and "sec \<notin> set (ComponentEntry.sections entry) \<or>
         fst (readFileWithCache fs
                (path_join [docsDir, ComponentEntry.category entry, ComponentEntry.name entry,
                            sec @ lit ''.md'']) w) = None"
  shows "fst (getComponentDoc h fs index docsDir nm sec w) = unavailable_payload entry sec"
  using assms(2) by (auto simp: getComponentDoc_found [OF assms(1)] Let_def)

lemma selected_entry_lower:
  assumes "\<forall>e \<in> set index. toLowerCase h (ComponentEntry.name e) = ComponentEntry.name e"
    and "toLowerCase h (toLowerCase h nm) = toLowerCase h nm"
  shows "selected_entry h index (toLowerCase h nm) = selected_entry h index nm"
proof -
  have "(ComponentEntry.name e = toLowerCase h nm \<or> ComponentEntry.name e = toLowerCase h (toLowerCase h nm))
          \<longleftrightarrow> (ComponentEntry.name e = nm \<or> ComponentEntry.name e = toLowerCase h nm)"
    if "e \<in> set index" for e
    using assms that by metis
  then show ?thesis
    unfolding selected_entry_def by (intro find_cong refl)
qed

lemma spec_suggestions_lower:
  "toLowerCase h (toLowerCase h nm) = toLowerCase h nm \<Longrightarrow>
   spec_suggestions h index (toLowerCase h nm) = spec_suggestions h index nm"
  by (simp add: spec_suggestions_def)

text \<open>
  Claim C6, amended. The host's lower-casing leaves the entry names of the index as they are
  (they are lower-case) and maps the lower-cased name to itself. Then a name and its
  lower-cased form select the same entry. When an entry is selected, the two lookups return
  the same payload (and leave the same cache). When none is, both return the not-found
  payload with the same suggestions, each quoting the name as it was given.
\<close>

theorem lookup_ignores_case:
  assumes "\<forall>e \<in> set index. toLowerCase h (ComponentEntry.name e) = ComponentEntry.name e"
    and "toLowerCase h (toLowerCase h nm) = toLowerCase h nm"
  shows "selected_entry h index (toLowerCase h nm) = selected_entry h index nm \<and>
         (selected_entry h index nm \<noteq> None \<longrightarrow>
            getComponentDoc h fs index docsDir (toLowerCase h nm) sec w =
            getComponentDoc h fs index docsDir nm sec w) \<and>
         (selected_entry h index nm = None \<longrightarrow>
            getComponentDoc h fs index docsDir nm sec w =
              (not_found_payload nm (spec_suggestions h index nm), w) \<and>
            getComponentDoc h fs index docsDir (toLowerCase h nm) sec w =
              (not_found_payload (toLowerCase h nm) (spec_suggestions h index nm), w))"
proof -
  note sel = selected_entry_lower [OF assms]
  have found: "getComponentDoc h fs index docsDir (toLowerCase h nm) sec w =
               getComponentDoc h fs index docsDir nm sec w"
    if "selected_entry h index nm = Some entry" for entry
    using that sel by (simp add: getComponentDoc_found)
  have missing: "getComponentDoc h fs index docsDir (toLowerCase h nm) sec w =
                 (not_found_payload (toLowerCase h nm) (spec_suggestions h index nm), w)"
    if "selected_entry h index nm = None"
    using that sel getComponentDoc_not_found [of h index "toLowerCase h nm" fs docsDir sec w]
    by (simp add: spec_suggestions_lower [OF assms(2)])
  show ?thesis
    using sel found missing getComponentDoc_not_found [of h index nm fs docsDir sec w] by auto
qed


section \<open>The component search: proofs\<close>

subsection \<open>The accessor keeps the cache coherent\<close>

lemma cache_coherent_iff:
  "cache_coherent fs w \<longleftrightarrow> (\<forall>p \<in> set (lru_map (cache w)). fs (fst p) = Some (snd p))"
  by (simp add: cache_coherent_def list_all_iff)

lemma Map_delete_subset: "set (Map_delete m key) \<subseteq> set m"
  by (auto simp: Map_delete_def)

lemma LRUCache_set_entries:
  "set (lru_map (LRUCache_set c key v)) \<subseteq> insert (key, v) (set (lru_map c))"
  using Map_delete_subset [of "lru_map c" key]
    Map_delete_subset [of "Map_delete (lru_map c) key @ [(key, v)]"]
  by (auto simp: LRUCache_set_map Let_def)

lemma LRUCache_get_entries:
  "set (lru_map (snd (LRUCache_get c key))) \<subseteq> set (lru_map c)"
  using Map_delete_subset [of "lru_map c" key]
  by (auto simp: LRUCache_get_map split: option.splits dest: map_of_SomeD)

lemma readFileWithCache_coherent:
  assumes "cache_coherent fs w"
  shows "fst (readFileWithCache fs p w) = fs p \<and> cache_coherent fs (snd (readFileWithCache fs p w))"
proof (cases "map_of (lru_map (cache w)) p")
  case None
  then have g: "LRUCache_get (cache w) p = (None, cache w)"
    by (simp add: LRUCache_get_def Map_get_def)
  show ?thesis
  proof (cases "fs p")
    case N: None
    with g assms show ?thesis
      by (simp add: readFileWithCache_def cache_coherent_iff)
  next
    case (Some content)
    have "\<forall>e \<in> set (lru_map (LRUCache_set (cache w) p content)). fs (fst e) = Some (snd e)"
      using LRUCache_set_entries [of "cache w" p content] assms Some
      by (auto simp: cache_coherent_iff)
    with g Some show ?thesis
      by (simp add: readFileWithCache_def cache_coherent_iff)
  qed
next
  case (Some v)
  then have "(p, v) \<in> set (lru_map (cache w))" by (rule map_of_SomeD)
  with assms have fsp: "fs p = Some v" by (auto simp: cache_coherent_iff)
  have fstg: "fst (LRUCache_get (cache w) p) = Some v"
    using Some by (simp add: LRUCache_get_value)
  have "\<forall>e \<in> set (lru_map (snd (LRUCache_get (cache w) p))). fs (fst e) = Some (snd e)"
    using LRUCache_get_entries [of "cache w" p] assms by (auto simp: cache_coherent_iff)
  with fstg fsp show ?thesis
    by (cases "LRUCache_get (cache w) p") (simp add: readFileWithCache_def cache_coherent_iff)
qed

subsection \<open>The search loops\<close>

lemma scan_sections_coherent:
  assumes "q \<noteq> []" and "toLowerCase h [] = []" and "cache_coherent fs w"
  shows "fst (scan_sections h fs docsDir entry q secs w) =
           (case find (section_matches h fs docsDir q entry) secs of
              None \<Rightarrow> None
            | Some sec \<Rightarrow>
                (case section_file fs docsDir entry sec of
                   None \<Rightarrow> None
                 | Some content \<Rightarrow>
                     Some \<lparr>SearchResult.name = ComponentEntry.name entry,
                           title = ComponentEntry.title entry,
                           category = ComponentEntry.category entry,
                           matchType = lit ''content ('' @ sec @ lit '')'',
                           excerpt = make_excerpt content q (indexOf (toLowerCase h content) q)\<rparr>))
         \<and> cache_coherent fs (snd (scan_sections h fs docsDir entry q secs w))"
  using assms(3)
proof (induction secs arbitrary: w)
  case Nil
  then show ?case by simp
next
  case (Cons sec rest)
  let ?p = "path_join [docsDir, ComponentEntry.category entry, ComponentEntry.name entry, sec @ lit ''.md'']"
  let ?r = "readFileWithCache fs ?p w"
  from readFileWithCache_coherent [OF Cons.prems, of ?p]
  have r1: "fst ?r = fs ?p" and r2: "cache_coherent fs (snd ?r)" by simp_all
  note IH = Cons.IH [OF r2]
  show ?case
  proof (cases "fs ?p")
    case None
    then have "\<not> section_matches h fs docsDir q entry sec"
      by (simp add: section_matches_def section_file_def)
    with None r1 IH show ?thesis by (simp add: Let_def)
  next
    case (Some content)
    show ?thesis
    proof (cases "content = []")
      case True
      with Some assms(1,2) have "\<not> section_matches h fs docsDir q entry sec"
        by (simp add: section_matches_def section_file_def String_includes_def indexOf_def)
      with Some True r1 IH show ?thesis by (simp add: Let_def)
    next
      case False
      show ?thesis
      proof (cases "indexOf (toLowerCase h content) q = - 1")
        case T: True
        with Some have "\<not> section_matches h fs docsDir q entry sec"
          by (simp add: section_matches_def section_file_def String_includes_def)
        with Some False T r1 IH show ?thesis by (simp add: Let_def)
      next
        case F: False
        with Some have "section_matches h fs docsDir q entry sec"
          by (simp add: section_matches_def section_file_def String_includes_def)
        with Some False F r1 r2 show ?thesis
          by (simp add: Let_def section_file_def)
      qed
    qed
  qed
qed

lemma search_entry_metadata:
  "metaMatch h entry q \<Longrightarrow> search_entry h fs docsDir q entry w = (Some (metadata_result entry), w)"
  by (simp add: search_entry_def metadata_result_def)

lemma metaMatch_empty: "metaMatch h entry []"
  by (simp add: metaMatch_def String_includes_empty)

lemma search_entry_coherent:
  assumes "toLowerCase h [] = []" and "cache_coherent fs w"
  shows "fst (search_entry h fs docsDir q entry w) = spec_entry_result h fs docsDir q entry \<and>
         cache_coherent fs (snd (search_entry h fs docsDir q entry w))"
proof (cases "metaMatch h entry q")
  case True
  with assms(2) show ?thesis
    by (simp add: search_entry_metadata spec_entry_result_def)
next
  case False
  then have "q \<noteq> []" using metaMatch_empty by blast
  from scan_sections_coherent [OF this assms] False show ?thesis
    by (simp add: search_entry_def spec_entry_result_def)
qed

lemma search_loop_coherent:
  assumes "toLowerCase h [] = []" and "cache_coherent fs w"
  shows "fst (search_loop h fs docsDir q index results w) =
           results @ List.map_filter (spec_entry_result h fs docsDir q) index \<and>
         cache_coherent fs (snd (search_loop h fs docsDir q index results w))"
  using assms(2)
proof (induction index arbitrary: results w)
  case Nil
  then show ?case by (simp add: List.map_filter_simps)
next
  case (Cons entry rest)
  from search_entry_coherent [OF assms(1) Cons.prems, of docsDir q entry]
  have e1: "fst (search_entry h fs docsDir q entry w) = spec_entry_result h fs docsDir q entry"
    and e2: "cache_coherent fs (snd (search_entry h fs docsDir q entry w))" by simp_all
  show ?case
  proof (cases "spec_entry_result h fs docsDir q entry")
    case None
    with e1 Cons.IH [OF e2, of results] show ?thesis
      by (simp add: Let_def List.map_filter_simps)
  next
    case (Some res)
    with e1 Cons.IH [OF e2, of "results @ [res]"] show ?thesis
      by (simp add: Let_def List.map_filter_simps)
  qed
qed

lemma length_map_filter_le: "length (List.map_filter f xs) \<le> length xs"
  by (induction xs) (auto simp: List.map_filter_simps split: option.splits)

lemma scan_sections_result_of:
  "fst (scan_sections h fs docsDir entry q secs w) = Some r \<Longrightarrow> result_of r entry"
proof (induction secs arbitrary: w)
  case Nil
  then show ?case by simp
next
  case (Cons sec rest)
  then show ?case
    by (auto simp: Let_def result_of_def split: option.splits if_splits)
qed

lemma search_entry_result_of:
  "fst (search_entry h fs docsDir q entry w) = Some r \<Longrightarrow> result_of r entry"
  by (auto simp: search_entry_def result_of_def scan_sections_result_of [unfolded result_of_def]
      split: if_splits)

lemma search_loop_one_per_entry:
  "\<exists>rs sub. fst (search_loop h fs docsDir q index results w) = results @ rs \<and>
            subseq sub index \<and> list_all2 result_of rs sub"
proof (induction index arbitrary: results w)
  case Nil
  then show ?case by simp
next
  case (Cons entry rest)
  let ?r = "search_entry h fs docsDir q entry w"
  show ?case
  proof (cases "fst ?r")
    case None
    from Cons.IH [of results "snd ?r"] obtain rs sub where
      "fst (search_loop h fs docsDir q rest results (snd ?r)) = results @ rs"
      "subseq sub rest" "list_all2 result_of rs sub" by blast
    with None have "fst (search_loop h fs docsDir q (entry # rest) results w) = results @ rs \<and>
        subseq sub (entry # rest) \<and> list_all2 result_of rs sub"
      by (simp add: Let_def list_emb_Cons)
    then show ?thesis by blast
  next
    case (Some res)
    from Cons.IH [of "results @ [res]" "snd ?r"] obtain rs sub where
      "fst (search_loop h fs docsDir q rest (results @ [res]) (snd ?r)) = (results @ [res]) @ rs"
      "subseq sub rest" "list_all2 result_of rs sub" by blast
    with Some search_entry_result_of [OF Some]
    have "fst (search_loop h fs docsDir q (entry # rest) results w) = results @ (res # rs) \<and>
        subseq (entry # sub) (entry # rest) \<and> list_all2 result_of (res # rs) (entry # sub)"
      by (simp add: Let_def)
    then show ?thesis by blast
  qed
qed

lemma cache_coherent_new:
  "LRUCache_new n = Inr c \<Longrightarrow> cache_coherent fs \<lparr>cache = c, fs_calls = calls\<rparr>"
  by (auto simp: LRUCache_new_def cache_coherent_def split: if_splits)

lemma search_results_coherent:
  "toLowerCase h [] = [] \<Longrightarrow> cache_coherent fs w \<Longrightarrow>
   cache_coherent fs (snd (search_results h fs index docsDir query w))"
  by (simp add: search_results_def search_loop_coherent)

lemma searchComponents_coherent:
  "toLowerCase h [] = [] \<Longrightarrow> cache_coherent fs w \<Longrightarrow>
   cache_coherent fs (snd (searchComponents h fs index docsDir query w))"
  by (simp add: searchComponents_def Let_def search_results_coherent)

lemma getComponentDoc_coherent:
  "cache_coherent fs w \<Longrightarrow> cache_coherent fs (snd (getComponentDoc h fs index docsDir nm sec w))"
  by (cases "selected_entry h index nm")
     (auto simp: getComponentDoc_not_found getComponentDoc_found Let_def readFileWithCache_coherent
           split: option.splits)

text \<open>
  Claim C4, amended. The search gives at most one result per entry, and the results come in
  index order, whatever the cache holds: the results belong, one to one and in order, to a
  sublist of the index. An entry with a metadata match gives the metadata result, and nothing
  is read for it: the cache and the file-system calls are as before. When the cache agrees
  with the files, as every cache that the accessor filled does, the results are exactly those
  of \<open>spec_entry_result\<close>, entry by entry: the metadata result; else the content result of the
  first declared section whose file contains the query; else none. Texts are compared after
  the host has lower-cased them; of its lower-casing only this is used, that it maps the empty
  string to itself.
\<close>

theorem search_one_result_per_entry:
  assumes "cache_coherent fs w" and "toLowerCase h [] = []"
  shows "fst (search_results h fs index docsDir query w) =
           List.map_filter (spec_entry_result h fs docsDir (toLowerCase h query)) index \<and>
         (\<forall>w'. \<exists>sub. subseq sub index \<and>
                 list_all2 result_of (fst (search_results h fs index docsDir query w')) sub) \<and>
         (\<forall>entry w'. metaMatch h entry (toLowerCase h query) \<longrightarrow>
            search_entry h fs docsDir (toLowerCase h query) entry w' = (Some (metadata_result entry), w'))"
proof -
  have a: "fst (search_results h fs index docsDir query w) =
           List.map_filter (spec_entry_result h fs docsDir (toLowerCase h query)) index"
    using search_loop_coherent [OF assms(2,1), of docsDir "toLowerCase h query" index "[]"]
    by (simp add: search_results_def)
  have b: "\<exists>sub. subseq sub index \<and>
                 list_all2 result_of (fst (search_results h fs index docsDir query w')) sub" for w'
    using search_loop_one_per_entry [of h fs docsDir "toLowerCase h query" index "[]" w']
    by (auto simp: search_results_def)
  show ?thesis
    using a b by (simp add: search_entry_metadata)
qed

lemma search_loop_all_metadata:
  "\<forall>e \<in> set index. metaMatch h e q \<Longrightarrow>
   search_loop h fs docsDir q index results w = (results @ map metadata_result index, w)"
  by (induction index arbitrary: results) (simp_all add: search_entry_metadata Let_def)

lemma render_payload_not_no_results:
  "string_of_nat n @ rest \<noteq> no_results_payload query"
proof -
  have "hd (string_of_nat n @ rest) \<in> digit_unit ` {0..<10}"
    using string_of_nat_hd [of n] by simp
  then obtain d where "d < 10" "hd (string_of_nat n @ rest) = digit_unit d"
    by auto
  then have "hd (string_of_nat n @ rest) \<noteq> 0x41"
    using digit_unit_not_A by simp
  moreover have "hd (no_results_payload query) = 0x41"
    by (simp add: no_results_payload_def lit_def)
  ultimately show ?thesis by metis
qed

text \<open>
  Claim C10. The host's lower-casing maps the empty string to itself. Then on a non-empty
  index the empty query gives one metadata result for every entry, in index order; the
  payload is the list of results and not the no-results payload; and the cache and the
  file-system calls are as before, so no section file is read.
\<close>

theorem empty_query_lists_every_entry:
  assumes "index \<noteq> []" and "toLowerCase h [] = []"
  shows "search_results h fs index docsDir [] w = (map metadata_result index, w) \<and>
         searchComponents h fs index docsDir [] w =
           (string_of_nat (length index) @ lit '' r'' @ e_acute @ lit ''sultat(s) pour '' @
            dquote @ dquote @ lit '' :'' @ newline @ newline @
            Array_join (map render_result (map metadata_result index)) (newline @ newline),
            w) \<and>
         fst (searchComponents h fs index docsDir [] w) \<noteq> no_results_payload []"
proof -
  have r: "search_results h fs index docsDir [] w = (map metadata_result index, w)"
    using search_loop_all_metadata [of index h "[]" fs docsDir "[]" w]
    by (simp add: search_results_def assms(2) metaMatch_empty)
  have s: "searchComponents h fs index docsDir [] w =
           (string_of_nat (length index) @ lit '' r'' @ e_acute @ lit ''sultat(s) pour '' @
            dquote @ dquote @ lit '' :'' @ newline @ newline @
            Array_join (map render_result (map metadata_result index)) (newline @ newline),
            w)"
    using assms(1) by (simp add: searchComponents_def r Let_def)
  show ?thesis
    using r s render_payload_not_no_results by simp
qed

section \<open>The icon search: proofs\<close>

subsection \<open>The comparison function of the icon search\<close>

lemma compare_scored_le_iff: "compare_scored h a b \<le> 0 \<longleftrightarrow> ranked_before h a b"
  by (auto simp: compare_scored_def ranked_before_def)

lemma ranked_before_total:
  assumes "\<forall>s t. localeCompare h s t \<le> 0 \<or> localeCompare h t s \<le> 0"
  shows "ranked_before h a b \<or> ranked_before h b a"
  using assms [rule_format, of "IconEntry.name (fst a)" "IconEntry.name (fst b)"]
  by (auto simp: ranked_before_def)

lemma ranked_before_trans:
  assumes "\<forall>s t u. localeCompare h s t \<le> 0 \<longrightarrow> localeCompare h t u \<le> 0 \<longrightarrow>
                   localeCompare h s u \<le> 0"
  shows "ranked_before h a b \<Longrightarrow> ranked_before h b c \<Longrightarrow> ranked_before h a c"
  using assms [rule_format, of "IconEntry.name (fst a)" "IconEntry.name (fst b)"
      "IconEntry.name (fst c)"]
  by (auto simp: ranked_before_def)

subsection \<open>The sort\<close>

lemma set_insert_sorted: "set (insert_sorted cmp x ys) = insert x (set ys)"
  by (induction ys) auto

lemma mset_insert_sorted: "mset (insert_sorted cmp x ys) = add_mset x (mset ys)"
  by (induction ys) auto

lemma mset_Array_sort: "mset (Array_sort cmp xs) = mset xs"
  by (induction xs) (simp_all add: Array_sort_def mset_insert_sorted)

lemma sorted_insert_sorted:
  assumes total: "\<And>a b. cmp a b \<le> 0 \<or> cmp b a \<le> 0"
    and trans: "\<And>a b c. cmp a b \<le> 0 \<Longrightarrow> cmp b c \<le> 0 \<Longrightarrow> cmp a c \<le> 0"
  shows "sorted_wrt (\<lambda>a b. cmp a b \<le> 0) ys \<Longrightarrow> sorted_wrt (\<lambda>a b. cmp a b \<le> 0) (insert_sorted cmp x ys)"
proof (induction ys)
  case Nil
  then show ?case by simp
next
  case (Cons y ys)
  show ?case
  proof (cases "cmp x y \<le> 0")
    case True
    with Cons.prems trans show ?thesis by auto
  next
    case False
    with total have "cmp y x \<le> 0" by blast
    with False Cons show ?thesis by (auto simp: set_insert_sorted)
  qed
qed

lemma sorted_Array_sort:
  assumes "\<And>a b. cmp a b \<le> 0 \<or> cmp b a \<le> 0"
    and "\<And>a b c. cmp a b \<le> 0 \<Longrightarrow> cmp b c \<le> 0 \<Longrightarrow> cmp a c \<le> 0"
  shows "sorted_wrt (\<lambda>a b. cmp a b \<le> 0) (Array_sort cmp xs)"
proof (induction xs)
  case Nil
  then show ?case by (simp add: Array_sort_def)
next
  case (Cons x xs)
  have "Array_sort cmp (x # xs) = insert_sorted cmp x (Array_sort cmp xs)"
    by (simp add: Array_sort_def)
  with sorted_insert_sorted [of cmp, OF assms Cons] show ?case by simp
qed

lemma sorted_scored:
  assumes "\<forall>s t. localeCompare h s t \<le> 0 \<or> localeCompare h t s \<le> 0"
    and "\<forall>s t u. localeCompare h s t \<le> 0 \<longrightarrow> localeCompare h t u \<le> 0 \<longrightarrow>
                 localeCompare h s u \<le> 0"
  shows "sorted_wrt (ranked_before h) (Array_sort (compare_scored h) xs)"
proof -
  have "sorted_wrt (\<lambda>a b. compare_scored h a b \<le> 0) (Array_sort (compare_scored h) xs)"
  proof (rule sorted_Array_sort)
    show "compare_scored h a b \<le> 0 \<or> compare_scored h b a \<le> 0" for a b
      using ranked_before_total [OF assms(1), of a b] by (simp add: compare_scored_le_iff)
    show "compare_scored h a b \<le> 0 \<Longrightarrow> compare_scored h b c \<le> 0 \<Longrightarrow> compare_scored h a c \<le> 0"
      for a b c
      using ranked_before_trans [OF assms(2), of a b c] by (simp add: compare_scored_le_iff)
  qed
  then show ?thesis by (simp add: compare_scored_le_iff)
qed

subsection \<open>The scoring loop\<close>

lemma score_loop_eq:
  "score_loop h q icons scored =
     scored @ map (\<lambda>i. (i, icon_score h q i)) (filter (\<lambda>i. icon_score h q i > 0) icons)"
  by (induction icons arbitrary: scored) (simp_all add: Let_def)

lemma icon_score_substring:
  "icon_score h q icon =
     (if toLowerCase h (IconEntry.name icon) = q then 3
      else if \<exists>b. toLowerCase h (IconEntry.name icon) = q @ b then 2
      else if (\<exists>a b. toLowerCase h (IconEntry.name icon) = a @ q @ b) \<or>
              (\<exists>c \<in> set (IconEntry.classes icon). \<exists>a b. toLowerCase h c = a @ q @ b) then 1
      else 0)"
  by (simp add: icon_score_def Let_def startsWith_iff String_includes_iff list_ex_iff)

text \<open>
  Claim C5, amended. The comparison of the host is consistent: \<open>localeCompare a b \<le> 0\<close> is a
  total and transitive relation on names. Then the icons of the result are the first twenty
  of a list \<open>S\<close> that holds exactly the candidates with a positive score, each with its score,
  sorted by \<open>ranked_before\<close>: the higher score first, and for equal scores the name that the
  host's collation puts first. Where the host's collation compares the names of the candidates
  as the lexicographic order of their code units does, the list is sorted by that order. The
  score is \<open>3\<close> when the lower-cased name is the lower-cased query, else \<open>2\<close> when it starts with
  it, else \<open>1\<close> when it, or a lower-cased class string, contains it, else \<open>0\<close>. So in the result
  an icon with score \<open>3\<close> stands before every icon with score \<open>2\<close>. The candidates are all icons
  when no category, or the empty one, is given, and the icons of the category otherwise.
\<close>

theorem icons_scored_sorted_truncated:
  assumes "\<forall>s t. localeCompare h s t \<le> 0 \<or> localeCompare h t s \<le> 0"
    and "\<forall>s t u. localeCompare h s t \<le> 0 \<longrightarrow> localeCompare h t u \<le> 0 \<longrightarrow>
                 localeCompare h s u \<le> 0"
  shows "icon_candidates icons cat =
     (case cat of
        None \<Rightarrow> icons
      | Some c \<Rightarrow> if c = [] then icons else filter (\<lambda>i. IconEntry.category i = c) icons) \<and>
   (\<exists>S. limited_icons h icons query cat = take 20 S \<and>
       mset S = mset (map (\<lambda>i. (i, icon_score h (toLowerCase h query) i))
                       (filter (\<lambda>i. icon_score h (toLowerCase h query) i > 0)
                          (icon_candidates icons cat))) \<and>
       sorted_wrt (ranked_before h) S \<and>
       sorted_wrt (ranked_before h) (limited_icons h icons query cat) \<and>
       ((\<forall>i \<in> set (icon_candidates icons cat). \<forall>j \<in> set (icon_candidates icons cat).
           (localeCompare h (IconEntry.name i) (IconEntry.name j) \<le> 0) =
           (IconEntry.name i \<le> IconEntry.name j)) \<longrightarrow>
        sorted_wrt ranked_by_code_units S \<and>
        sorted_wrt ranked_by_code_units (limited_icons h icons query cat)) \<and>
       length (limited_icons h icons query cat) \<le> 20 \<and>
       (\<forall>icon. icon_score h (toLowerCase h query) icon =
          (if toLowerCase h (IconEntry.name icon) = toLowerCase h query then 3
           else if \<exists>b. toLowerCase h (IconEntry.name icon) = toLowerCase h query @ b then 2
           else if (\<exists>a b. toLowerCase h (IconEntry.name icon) = a @ toLowerCase h query @ b) \<or>
                   (\<exists>c \<in> set (IconEntry.classes icon).
                      \<exists>a b. toLowerCase h c = a @ toLowerCase h query @ b) then 1
           else 0)) \<and>
       (\<forall>m n. m < length (limited_icons h icons query cat) \<and>
              n < length (limited_icons h icons query cat) \<and>
              snd (limited_icons h icons query cat ! m) = 3 \<and>
              snd (limited_icons h icons query cat ! n) = 2 \<longrightarrow> m < n))"
proof -
  let ?q = "toLowerCase h query"
  let ?cands = "icon_candidates icons cat"
  let ?scored = "scored_icons h icons query cat"
  let ?S = "Array_sort (compare_scored h) ?scored"
  let ?L = "limited_icons h icons query cat"
  have L: "?L = take 20 ?S" by (simp add: limited_icons_def)
  have sc: "?scored = map (\<lambda>i. (i, icon_score h ?q i))
                        (filter (\<lambda>i. icon_score h ?q i > 0) ?cands)"
    by (simp add: scored_icons_def score_loop_eq)
  have ms: "mset ?S = mset (map (\<lambda>i. (i, icon_score h ?q i))
                       (filter (\<lambda>i. icon_score h ?q i > 0) ?cands))"
    by (simp add: mset_Array_sort sc)
  have sS: "sorted_wrt (ranked_before h) ?S" by (rule sorted_scored [OF assms])
  then have sL: "sorted_wrt (ranked_before h) ?L"
    unfolding L by (rule sorted_wrt_take)
  have members: "fst a \<in> set ?cands" if "a \<in> set ?S" for a
  proof -
    from that have "a \<in># mset ?S" by simp
    then have "a \<in> set (map (\<lambda>i. (i, icon_score h ?q i))
                           (filter (\<lambda>i. icon_score h ?q i > 0) ?cands))"
      unfolding ms by simp
    then show ?thesis by auto
  qed
  have codes: "sorted_wrt ranked_by_code_units ?S \<and> sorted_wrt ranked_by_code_units ?L"
    if agree: "\<forall>i \<in> set ?cands. \<forall>j \<in> set ?cands.
                 (localeCompare h (IconEntry.name i) (IconEntry.name j) \<le> 0) =
                 (IconEntry.name i \<le> IconEntry.name j)"
  proof -
    have r: "ranked_by_code_units a b" if "a \<in> set ?S" "b \<in> set ?S" "ranked_before h a b" for a b
      using that agree members [of a] members [of b]
      by (auto simp: ranked_before_def ranked_by_code_units_def)
    have "sorted_wrt ranked_by_code_units ?S"
      by (rule sorted_wrt_mono_rel [OF r sS])
    moreover from this have "sorted_wrt ranked_by_code_units ?L"
      unfolding L by (rule sorted_wrt_take)
    ultimately show ?thesis by simp
  qed
  have len: "length ?L \<le> 20" by (simp add: L)
  have order: "m < n" if a: "m < length ?L" "n < length ?L"
    and b: "snd (?L ! m) = 3" "snd (?L ! n) = 2" for m n
  proof (rule ccontr)
    assume "\<not> m < n"
    moreover from b have "m \<noteq> n" by auto
    ultimately have "n < m" by simp
    with sL a have "ranked_before h (?L ! n) (?L ! m)"
      by (simp add: sorted_wrt_iff_nth_less)
    with b show False by (simp add: ranked_before_def)
  qed
  have cand: "icon_candidates icons cat =
     (case cat of
        None \<Rightarrow> icons
      | Some c \<Rightarrow> if c = [] then icons else filter (\<lambda>i. IconEntry.category i = c) icons)"
    by (simp add: icon_candidates_def truthy_def split: option.splits)
  have "\<exists>S. ?L = take 20 S \<and>
       mset S = mset (map (\<lambda>i. (i, icon_score h ?q i))
                       (filter (\<lambda>i. icon_score h ?q i > 0) ?cands)) \<and>
       sorted_wrt (ranked_before h) S \<and> sorted_wrt (ranked_before h) ?L \<and>
       ((\<forall>i \<in> set ?cands. \<forall>j \<in> set ?cands.
           (localeCompare h (IconEntry.name i) (IconEntry.name j) \<le> 0) =
           (IconEntry.name i \<le> IconEntry.name j)) \<longrightarrow>
        sorted_wrt ranked_by_code_units S \<and> sorted_wrt ranked_by_code_units ?L) \<and>
       length ?L \<le> 20 \<and>
       (\<forall>icon. icon_score h ?q icon =
          (if toLowerCase h (IconEntry.name icon) = ?q then 3
           else if \<exists>b. toLowerCase h (IconEntry.name icon) = ?q @ b then 2
           else if (\<exists>a b. toLowerCase h (IconEntry.name icon) = a @ ?q @ b) \<or>
                   (\<exists>c \<in> set (IconEntry.classes icon). \<exists>a b. toLowerCase h c = a @ ?q @ b) then 1
           else 0)) \<and>
       (\<forall>m n. m < length ?L \<and> n < length ?L \<and> snd (?L ! m) = 3 \<and> snd (?L ! n) = 2
              \<longrightarrow> m < n)"
  proof (intro exI [of _ ?S] conjI)
    show "?L = take 20 ?S" by (rule L)
    show "mset ?S = mset (map (\<lambda>i. (i, icon_score h ?q i))
                       (filter (\<lambda>i. icon_score h ?q i > 0) ?cands))" by (rule ms)
    show "sorted_wrt (ranked_before h) ?S" by (rule sS)
    show "sorted_wrt (ranked_before h) ?L" by (rule sL)
    show "(\<forall>i \<in> set ?cands. \<forall>j \<in> set ?cands.
           (localeCompare h (IconEntry.name i) (IconEntry.name j) \<le> 0) =
           (IconEntry.name i \<le> IconEntry.name j)) \<longrightarrow>
        sorted_wrt ranked_by_code_units ?S \<and> sorted_wrt ranked_by_code_units ?L"
      using codes by blast
    show "length ?L \<le> 20" by (rule len)
    show "\<forall>icon. icon_score h ?q icon =
          (if toLowerCase h (IconEntry.name icon) = ?q then 3
           else if \<exists>b. toLowerCase h (IconEntry.name icon) = ?q @ b then 2
           else if (\<exists>a b. toLowerCase h (IconEntry.name icon) = a @ ?q @ b) \<or>
                   (\<exists>c \<in> set (IconEntry.classes icon). \<exists>a b. toLowerCase h c = a @ ?q @ b) then 1
           else 0)"
      using icon_score_substring [of h ?q] by blast
    show "\<forall>m n. m < length ?L \<and> n < length ?L \<and> snd (?L ! m) = 3 \<and> snd (?L ! n) = 2
              \<longrightarrow> m < n"
      using order by blast
  qed
  with cand show ?thesis by (rule conjI)
qed

section \<open>The colour tokens and the examples: proofs\<close>

subsection \<open>The colour tokens\<close>

lemma filtered_tokens_subset: "set (filtered_tokens h colors options) \<subseteq> set (decisionTokens colors)"
  by (auto simp: filtered_tokens_def Let_def split: option.splits if_splits)

lemma filtered_tokens_ctx:
  assumes "ColorOptions.ctx options = Some c" and "c \<noteq> []"
  shows "set (filtered_tokens h colors options)
           \<subseteq> {t \<in> set (decisionTokens colors). ColorDecisionToken.ctx t = c}"
  using assms by (auto simp: filtered_tokens_def Let_def split: option.splits if_splits)

text \<open>
  Claim C9, amended. When the \<open>context\<close> option is given and is not the empty string, every
  token of the decision-token section is a decision token whose context is the option's value;
  the section is the rendering of exactly these tokens, and is absent when there are none.
  (An empty string does not pass the test \<open>if (context)\<close>, and no filter is applied for it.)
\<close>

theorem context_filter_keeps_exact_matches:
  assumes "ColorOptions.ctx options = Some c" and "c \<noteq> []"
  shows "(\<forall>t \<in> set (filtered_tokens h colors options).
            t \<in> set (decisionTokens colors) \<and> ColorDecisionToken.ctx t = c) \<and>
         decision_section h colors options =
           (if filtered_tokens h colors options = [] then []
            else [lit ''### Tokens de d'' @ e_acute @ lit ''cision'' @ newline @
                  Array_join (map render_token (filtered_tokens h colors options)) newline])"
  using filtered_tokens_ctx [OF assms, of h colors]
  by (auto simp: decision_section_def Let_def)

subsection \<open>The example host\<close>

lemma ascii_lower_Nil: "toLowerCase example_host [] = []"
  by (simp add: example_host_def ascii_lower_def)

lemma collate_ignoring_case_le_iff:
  "collate_ignoring_case s t \<le> 0 \<longleftrightarrow>
     ascii_lower s < ascii_lower t \<or> (ascii_lower s = ascii_lower t \<and> t \<le> s)"
  by (auto simp: collate_ignoring_case_def compare_code_units_def Let_def)

lemma example_host_total:
  "\<forall>s t. localeCompare example_host s t \<le> 0 \<or> localeCompare example_host t s \<le> 0"
  by (auto simp: example_host_def collate_ignoring_case_le_iff)

lemma example_host_trans:
  "\<forall>s t u. localeCompare example_host s t \<le> 0 \<longrightarrow> localeCompare example_host t u \<le> 0 \<longrightarrow>
            localeCompare example_host s u \<le> 0"
  by (auto simp: example_host_def collate_ignoring_case_le_iff)

subsection \<open>Evaluation on the example data\<close>

lemmas string_eval = lit_def example_host_def ascii_lower_def ascii_lower_unit_def
  String_includes_def indexOf_def path_join_def

lemmas cache_eval = readFileWithCache_def LRUCache_get_def LRUCache_set_def Map_get_def
  Map_has_def Map_delete_def Map_size_def Map_first_key_def

lemmas example_eval = example_index_def button_entry_def card_entry_def example_files_def
  example_world_def

lemma example_selected:
  "selected_entry example_host example_index (lit ''BUTTON'') = Some button_entry"
  "selected_entry example_host example_index (lit ''button'') = Some button_entry"
  "selected_entry example_host example_index (lit ''card'') = Some card_entry"
  by (simp_all add: selected_entry_def example_eval string_eval)

theorem context_filter_keeps_exact_matches_witness:
  "filtered_tokens example_host example_colors
     \<lparr>ctx = Some (lit ''background''), usage = None, family = None\<rparr>
     = [background_error_token] \<and>
   ColorDecisionToken.ctx background_error_token = lit ''background''"
proof -
  let ?o = "\<lparr>ctx = Some (lit ''background''), usage = None, family = None\<rparr>"
  have h: "ColorOptions.ctx ?o = Some (lit ''background'')" "lit ''background'' \<noteq> []"
    by (simp_all add: lit_def)
  have e: "filtered_tokens example_host example_colors ?o = [background_error_token]"
    by (simp add: filtered_tokens_def example_colors_def text_error_token_def
        background_error_token_def lit_def)
  from context_filter_keeps_exact_matches [OF h, of example_host example_colors] e
  show ?thesis by simp
qed

theorem context_filter_empty_string_counterexample:
  "filtered_tokens example_host example_colors
     \<lparr>ctx = Some [], usage = Some (lit ''error''), family = None\<rparr>
     = [text_error_token, background_error_token] \<and>
   ColorDecisionToken.ctx text_error_token \<noteq> [] \<and>
   decision_section example_host example_colors
     \<lparr>ctx = Some [], usage = Some (lit ''error''), family = None\<rparr> \<noteq> []"
  by (simp add: decision_section_def filtered_tokens_def example_colors_def text_error_token_def
      background_error_token_def Let_def string_eval)

theorem lookup_ignores_case_witness:
  "getComponentDoc example_host example_files example_index (lit ''/docs'') (lit ''BUTTON'')
     (lit ''code'') example_world =
   getComponentDoc example_host example_files example_index (lit ''/docs'') (lit ''button'')
     (lit ''code'') example_world"
proof -
  have l: "\<forall>e \<in> set example_index.
             toLowerCase example_host (ComponentEntry.name e) = ComponentEntry.name e"
    by (simp add: example_eval string_eval)
  have lw: "toLowerCase example_host (lit ''BUTTON'') = lit ''button''"
    by (simp add: string_eval)
  have i: "toLowerCase example_host (toLowerCase example_host (lit ''BUTTON'')) =
           toLowerCase example_host (lit ''BUTTON'')"
    by (simp add: string_eval)
  from lookup_ignores_case [OF l i, of example_files "lit ''/docs''" "lit ''code''" example_world]
  show ?thesis by (simp add: example_selected lw)
qed

theorem lookup_not_found_echoes_query_counterexample:
  "example_index = [button_entry, card_entry] \<and>
   toLowerCase example_host (ComponentEntry.name button_entry) = ComponentEntry.name button_entry \<and>
   toLowerCase example_host (ComponentEntry.name card_entry) = ComponentEntry.name card_entry \<and>
   toLowerCase example_host (lit ''CARTE'') = lit ''carte'' \<and>
   toLowerCase example_host (lit ''carte'') = lit ''carte'' \<and>
   selected_entry example_host example_index (lit ''CARTE'') = None \<and>
   fst (getComponentDoc example_host example_files example_index (lit ''/docs'') (lit ''CARTE'')
          (lit ''code'') example_world) =
     not_found_payload (lit ''CARTE'') [card_entry] \<and>
   fst (getComponentDoc example_host example_files example_index (lit ''/docs'')
          (toLowerCase example_host (lit ''CARTE'')) (lit ''code'') example_world) =
     not_found_payload (lit ''carte'') [card_entry] \<and>
   not_found_payload (lit ''CARTE'') [card_entry] \<noteq> not_found_payload (lit ''carte'') [card_entry]"
  by (simp add: getComponentDoc_def selected_entry_def not_found_payload_def example_eval
      string_eval)

theorem not_found_lists_suggestions_witness:
  "getComponentDoc example_host example_files example_index (lit ''/docs'') (lit ''butto'')
     (lit ''code'') example_world =
     (not_found_payload (lit ''butto'') [button_entry], example_world)"
proof -
  have h: "\<forall>e \<in> set example_index.
             ComponentEntry.name e \<noteq> lit ''butto'' \<and>
             ComponentEntry.name e \<noteq> toLowerCase example_host (lit ''butto'')"
    by (simp add: example_eval string_eval)
  have s: "spec_suggestions example_host example_index (lit ''butto'') = [button_entry]"
    by (simp add: spec_suggestions_def example_eval string_eval)
  from not_found_lists_suggestions [OF h, of example_files "lit ''/docs''" "lit ''code''"
      example_world]
  show ?thesis by (simp add: s)
qed

theorem unavailable_section_same_payload_witness:
  "fst (getComponentDoc example_host example_files example_index (lit ''/docs'') (lit ''button'')
          (lit ''demo'') example_world) =
     unavailable_payload button_entry (lit ''demo'') \<and>
   fst (getComponentDoc example_host example_files example_index (lit ''/docs'') (lit ''card'')
          (lit ''overview'') example_world) =
     unavailable_payload card_entry (lit ''overview'')"
proof -
  have a: "lit ''demo'' \<notin> set (ComponentEntry.sections button_entry) \<or>
        fst (readFileWithCache example_files
               (path_join [lit ''/docs'', ComponentEntry.category button_entry,
                           ComponentEntry.name button_entry, lit ''demo'' @ lit ''.md''])
               example_world) = None"
    by (simp add: button_entry_def lit_def)
  have b: "lit ''overview'' \<notin> set (ComponentEntry.sections card_entry) \<or>
        fst (readFileWithCache example_files
               (path_join [lit ''/docs'', ComponentEntry.category card_entry,
                           ComponentEntry.name card_entry, lit ''overview'' @ lit ''.md''])
               example_world) = None"
    by (simp add: card_entry_def example_files_def example_world_def path_join_def lit_def
        cache_eval)
  from unavailable_section_same_payload [OF example_selected(2) a]
    unavailable_section_same_payload [OF example_selected(3) b]
  show ?thesis by simp
qed

theorem search_one_result_per_entry_witness:
  "fst (search_results example_host example_files example_index (lit ''/docs'') (lit ''Carte'')
          example_world) =
   [\<lparr>SearchResult.name = lit ''button'', title = lit ''Bouton'', category = lit ''component'',
     matchType = lit ''content (overview)'',
     excerpt = lit ''Comme la carte, il est cliquable''\<rparr>,
    metadata_result card_entry]"
proof -
  have h: "cache_coherent example_files example_world"
    by (simp add: cache_coherent_def example_world_def)
  have q: "toLowerCase example_host (lit ''Carte'') = lit ''carte''"
    by (simp add: string_eval)
  have b: "spec_entry_result example_host example_files (lit ''/docs'') (lit ''carte'') button_entry =
             Some \<lparr>SearchResult.name = lit ''button'', title = lit ''Bouton'',
                   category = lit ''component'', matchType = lit ''content (overview)'',
                   excerpt = lit ''Comme la carte, il est cliquable''\<rparr>"
    by (simp add: spec_entry_result_def metaMatch_def section_matches_def section_file_def
        make_excerpt_def slice_def replace_newlines_def Let_def example_eval string_eval)
  have c: "spec_entry_result example_host example_files (lit ''/docs'') (lit ''carte'') card_entry =
             Some (metadata_result card_entry)"
    by (simp add: spec_entry_result_def metaMatch_def example_eval string_eval)
  have "List.map_filter (spec_entry_result example_host example_files (lit ''/docs'') (lit ''carte''))
          example_index =
          [\<lparr>SearchResult.name = lit ''button'', title = lit ''Bouton'',
            category = lit ''component'', matchType = lit ''content (overview)'',
            excerpt = lit ''Comme la carte, il est cliquable''\<rparr>, metadata_result card_entry]"
    by (simp add: example_index_def List.map_filter_simps b c)
  with search_one_result_per_entry [OF h ascii_lower_Nil, of example_index "lit ''/docs''"
      "lit ''Carte''", THEN conjunct1]
  show ?thesis by (simp add: q)
qed

theorem search_stale_cache_counterexample:
  "fst (search_results example_host example_files example_index (lit ''/docs'') (lit ''zzz'')
          stale_world) =
     [\<lparr>SearchResult.name = lit ''card'', title = lit ''Carte'', category = lit ''component'',
       matchType = lit ''content (overview)'', excerpt = lit ''zzz''\<rparr>] \<and>
   toLowerCase example_host (lit ''zzz'') = lit ''zzz'' \<and>
   \<not> metaMatch example_host card_entry (lit ''zzz'') \<and>
   ComponentEntry.sections card_entry = [lit ''overview'', lit ''code''] \<and>
   section_file example_files (lit ''/docs'') card_entry (lit ''overview'') = None \<and>
   section_file example_files (lit ''/docs'') card_entry (lit ''code'') = Some (lit ''class fr-card'') \<and>
   \<not> String_includes (toLowerCase example_host (lit ''class fr-card'')) (lit ''zzz'') \<and>
   spec_entry_result example_host example_files (lit ''/docs'') (lit ''zzz'') card_entry = None"
  by (simp add: search_results_def search_entry_def metaMatch_def spec_entry_result_def
      section_matches_def section_file_def make_excerpt_def slice_def replace_newlines_def
      Let_def stale_world_def example_eval string_eval cache_eval)

theorem empty_query_lists_every_entry_witness:
  "search_results example_host example_files example_index (lit ''/docs'') [] example_world =
     (map metadata_result example_index, example_world) \<and>
   map matchType (map metadata_result example_index) = [lit ''metadata'', lit ''metadata'']"
proof -
  have h: "example_index \<noteq> []" by (simp add: example_index_def)
  from empty_query_lists_every_entry [OF h ascii_lower_Nil, of example_files "lit ''/docs''"
      example_world]
  show ?thesis by (simp add: example_index_def metadata_result_def)
qed

theorem icons_scored_sorted_truncated_witness:
  "limited_icons example_host example_icons (lit ''DOWNLOAD'') None =
     [(example_icons ! 2, 3), (example_icons ! 1, 2), (example_icons ! 0, 1)] \<and> (0::nat) < 1"
proof -
  let ?L = "limited_icons example_host example_icons (lit ''DOWNLOAD'') None"
  have e: "?L = [(example_icons ! 2, 3), (example_icons ! 1, 2), (example_icons ! 0, 1)]"
    by (simp add: limited_icons_def scored_icons_def icon_candidates_def truthy_def icon_score_def
        Array_sort_def compare_scored_def example_icons_def collate_ignoring_case_def
        compare_code_units_def Let_def string_eval)
  have h: "0 < length ?L \<and> 1 < length ?L \<and> snd (?L ! 0) = 3 \<and> snd (?L ! 1) = 2"
    by (simp add: e)
  from icons_scored_sorted_truncated [OF example_host_total example_host_trans,
      of example_icons None "lit ''DOWNLOAD''", THEN conjunct2]
  have "0 < length ?L \<and> 1 < length ?L \<and> snd (?L ! 0) = 3 \<and> snd (?L ! 1) = 2 \<longrightarrow> (0::nat) < 1"
    by blast
  with h have "(0::nat) < 1" by blast
  with e show ?thesis by blast
qed

theorem icons_collation_order_counterexample:
  "limited_icons example_host [azure_icon, alpha_icon] (lit ''a'') None =
     [(alpha_icon, 2), (azure_icon, 2)] \<and>
   IconEntry.name azure_icon = lit ''Azure'' \<and>
   IconEntry.name alpha_icon = lit ''alpha'' \<and>
   lit ''Azure'' < lit ''alpha'' \<and>
   localeCompare example_host (lit ''alpha'') (lit ''Azure'') = - 1 \<and>
   \<not> ranked_by_code_units (alpha_icon, 2) (azure_icon, 2)"
  by (simp add: limited_icons_def scored_icons_def icon_candidates_def truthy_def icon_score_def
      Array_sort_def compare_scored_def azure_icon_def alpha_icon_def collate_ignoring_case_def
      compare_code_units_def ranked_by_code_units_def Let_def string_eval)

end
